theory Spec2Isabelle
  imports Complex_Main "HOL-Library.Sublist"
begin

section \<open>Python values used by app/agent.py\<close>

text \<open>
  The only exception the modelled functions can raise is the \<open>KeyError\<close> of a
  subscript \<open>d[k]\<close> on a dict without the key \<open>k\<close>.
\<close>

datatype py_error = KeyError

text \<open>
  A Python dict keeps its keys in insertion order and holds each key once: it is an
  association list; \<open>d[k] = v\<close> overwrites the value of a key in place and puts a new
  key at the end.
\<close>

type_synonym ('k, 'v) pydict = "('k \<times> 'v) list"

definition dict_get :: "('k, 'v) pydict \<Rightarrow> 'k \<Rightarrow> 'v option" where
  "dict_get d k = map_of d k"

fun dict_set :: "('k, 'v) pydict \<Rightarrow> 'k \<Rightarrow> 'v \<Rightarrow> ('k, 'v) pydict" where
  "dict_set [] k v = [(k, v)]"
| "dict_set ((k', v') # d) k v =
     (if k' = k then (k, v) # d else (k', v') # dict_set d k v)"

text \<open>\<open>x or []\<close> for an optional list: \<open>None\<close> and \<open>[]\<close> both give \<open>[]\<close>.\<close>

fun or_empty :: "'a list option \<Rightarrow> 'a list" where
  "or_empty None = []"
| "or_empty (Some xs) = xs"

text \<open>The decimal text of a non-negative integer, as an f-string prints it.\<close>

definition digit_char :: "nat \<Rightarrow> char" where
  "digit_char d = ''0123456789'' ! d"

function str_nat :: "nat \<Rightarrow> string" where
  "str_nat n =
     (if n < 10 then [digit_char n] else str_nat (n div 10) @ [digit_char (n mod 10)])"
  by pat_completeness auto
termination
  by (relation "measure id") auto
declare str_nat.simps [simp del]

section \<open>Data model\<close>

text \<open>
  Modelled from the spec: the grounding metadata of an event (section 3, GroundingEvent,
  and the wire shape of section 6). The classes are those of the google.genai library,
  which the repository imports; their declarations are not part of the repository. The
  fields are the ones the callback reads: every field the callback tests for presence
  is optional; \<open>uri\<close>, \<open>title\<close>, \<open>domain\<close> and the segment's text are strings. A
  confidence score is a float that the callback only copies and compares with nothing,
  so a real number stands for it.
\<close>

record GroundingChunkWeb =
  uri :: string
  title :: string
  domain :: string

record GroundingChunk =
  web :: "GroundingChunkWeb option"

record Segment =
  seg_text :: string

record GroundingSupport =
  segment :: "Segment option"
  confidence_scores :: "real list option"
  grounding_chunk_indices :: "int list option"

record GroundingMetadata =
  grounding_chunks :: "GroundingChunk list option"
  grounding_supports :: "GroundingSupport list option"

text \<open>
  An event of the session. The class is declared in the google.adk library, not in the
  repository; the record has the fields that the source reads or sets: the author, the
  \<open>escalate\<close> flag of the actions (unset by default) and the optional grounding metadata.
\<close>

record EventActions =
  escalate :: "bool option"

record Event =
  author :: string
  actions :: EventActions
  grounding_metadata :: "GroundingMetadata option"

text \<open>A supported claim: the dict \<open>{"text_segment": ..., "confidence": ...}\<close>.\<close>

record Claim =
  text_segment :: string
  confidence :: real

text \<open>
  A source: a dict whose keys are among the five that the collecting callback writes.
  A field is \<open>None\<close> when the dict has no such key, so the empty dict is the record
  with every field \<open>None\<close>.
\<close>

record source_info =
  src_short_id :: "string option"
  src_title :: "string option"
  src_url :: "string option"
  src_domain :: "string option"
  src_supported_claims :: "Claim list option"

definition empty_dict :: source_info where
  "empty_dict = \<lparr>src_short_id = None, src_title = None, src_url = None,
     src_domain = None, src_supported_claims = None\<rparr>"

text \<open>
  The evaluation that the evaluator stage stores under \<open>research_evaluation\<close>: the dict
  of a \<open>Feedback\<close> object (lines 30 to 42), with the same reading of \<open>None\<close> as a missing
  key; a follow-up query is the text of its \<open>search_query\<close>.
\<close>

record feedback =
  grade :: "string option"
  comment :: "string option"
  follow_up_queries :: "string list option"

definition empty_feedback :: feedback where
  "empty_feedback = \<lparr>grade = None, comment = None, follow_up_queries = None\<rparr>"

text \<open>The session state: the keys the three modelled functions read or write;
  \<open>None\<close> for a key that is not set.\<close>

record state =
  url_to_short_id :: "(string, string) pydict option"
  sources :: "(string, source_info) pydict option"
  research_evaluation :: "feedback option"
  final_cited_report :: "string option"
  final_report_with_citations :: "string option"

definition initial_state :: state where
  "initial_state = \<lparr>url_to_short_id = None, sources = None, research_evaluation = None,
     final_cited_report = None, final_report_with_citations = None\<rparr>"

section \<open>collect_research_sources_callback\<close>

type_synonym registry = "(string, string) pydict \<times> (string, source_info) pydict \<times> nat"

text \<open>
  Lines 59 to 75: the title to store, and the registration of a URL that
  \<open>url_to_short_id\<close> does not hold yet.
\<close>

definition register_web :: "GroundingChunkWeb \<Rightarrow> registry \<Rightarrow> registry" where
  "register_web w r =
     (case r of (u, s, c) \<Rightarrow>
        (let url = uri w;
             ttl = (if title w \<noteq> domain w then title w else domain w)
         in (if dict_get u url = None
             then (let short_id = ''src-'' @ str_nat c
                   in (dict_set u url short_id,
                       dict_set s short_id
                         \<lparr>src_short_id = Some short_id, src_title = Some ttl,
                          src_url = Some url, src_domain = Some (domain w),
                          src_supported_claims = Some []\<rparr>,
                       c + 1))
             else (u, s, c))))"

text \<open>
  The loop over \<open>enumerate(grounding_chunks)\<close> (lines 56 to 76). The accumulator is
  the registry (\<open>url_to_short_id\<close>, \<open>sources\<close>, \<open>id_counter\<close>) and the event's
  \<open>chunks_info\<close>; line 76 reads \<open>url_to_short_id[url]\<close>.
\<close>

fun chunks_loop ::
  "int \<Rightarrow> GroundingChunk list \<Rightarrow> registry \<times> (int, string) pydict
     \<Rightarrow> py_error + registry \<times> (int, string) pydict" where
  "chunks_loop idx [] acc = Inr acc"
| "chunks_loop idx (chunk # rest) (r, ci) =
     (case web chunk of
        None \<Rightarrow> chunks_loop (idx + 1) rest (r, ci)
      | Some w \<Rightarrow>
          (let r' = register_web w r
           in (case dict_get (fst r') (uri w) of
                 None \<Rightarrow> Inl KeyError
               | Some sid \<Rightarrow> chunks_loop (idx + 1) rest (r', dict_set ci idx sid))))"

text \<open>\<open>sources[short_id]["supported_claims"].append(claim)\<close> (line 88).\<close>

definition append_claim ::
  "(string, source_info) pydict \<Rightarrow> string \<Rightarrow> Claim \<Rightarrow> py_error + (string, source_info) pydict" where
  "append_claim s short_id cl =
     (case dict_get s short_id of
        None \<Rightarrow> Inl KeyError
      | Some info \<Rightarrow>
          (case src_supported_claims info of
             None \<Rightarrow> Inl KeyError
           | Some cls \<Rightarrow>
               Inr (dict_set s short_id (info\<lparr>src_supported_claims := Some (cls @ [cl])\<rparr>))))"

text \<open>The claim built at position \<open>i\<close> of a support's indices (lines 84 to 92).\<close>

definition make_claim :: "real list \<Rightarrow> Segment option \<Rightarrow> nat \<Rightarrow> Claim" where
  "make_claim scores seg i =
     \<lparr>text_segment = (case seg of Some sg \<Rightarrow> seg_text sg | None \<Rightarrow> ''''),
      confidence = (if i < length scores then scores ! i else 0.5)\<rparr>"

text \<open>The loop over \<open>enumerate(chunk_indices)\<close> (lines 81 to 93), from position \<open>i\<close>.\<close>

fun indices_loop ::
  "(int, string) pydict \<Rightarrow> real list \<Rightarrow> Segment option \<Rightarrow> nat \<Rightarrow> int list
     \<Rightarrow> (string, source_info) pydict \<Rightarrow> py_error + (string, source_info) pydict" where
  "indices_loop ci scores seg i [] s = Inr s"
| "indices_loop ci scores seg i (chunk_idx # rest) s =
     (case dict_get ci chunk_idx of
        None \<Rightarrow> indices_loop ci scores seg (i + 1) rest s
      | Some short_id \<Rightarrow>
          (case append_claim s short_id (make_claim scores seg i) of
             Inl e \<Rightarrow> Inl e
           | Inr s' \<Rightarrow> indices_loop ci scores seg (i + 1) rest s'))"

text \<open>The body of the loop over the supports (lines 79 to 93), for one support.\<close>

definition support_body ::
  "(int, string) pydict \<Rightarrow> GroundingSupport \<Rightarrow> (string, source_info) pydict
     \<Rightarrow> py_error + (string, source_info) pydict" where
  "support_body ci support s =
     indices_loop ci (or_empty (confidence_scores support)) (segment support) 0
       (or_empty (grounding_chunk_indices support)) s"

fun supports_loop ::
  "(int, string) pydict \<Rightarrow> GroundingSupport list \<Rightarrow> (string, source_info) pydict
     \<Rightarrow> py_error + (string, source_info) pydict" where
  "supports_loop ci [] s = Inr s"
| "supports_loop ci (support # rest) s =
     (case support_body ci support s of
        Inl e \<Rightarrow> Inl e
      | Inr s' \<Rightarrow> supports_loop ci rest s')"

text \<open>The body of the loop over the session's events (lines 53 to 93), for one event.\<close>

definition event_body :: "Event \<Rightarrow> registry \<Rightarrow> py_error + registry" where
  "event_body event r =
     (case grounding_metadata event of
        None \<Rightarrow> Inr r
      | Some gm \<Rightarrow>
          (if or_empty (grounding_chunks gm) = [] then Inr r
           else (case chunks_loop 0 (or_empty (grounding_chunks gm)) (r, []) of
                   Inl e \<Rightarrow> Inl e
                 | Inr ((u, s, c), chunks_info) \<Rightarrow>
                     (case supports_loop chunks_info (or_empty (grounding_supports gm)) s of
                        Inl e \<Rightarrow> Inl e
                      | Inr s' \<Rightarrow> Inr (u, s', c)))))"

fun events_loop :: "Event list \<Rightarrow> registry \<Rightarrow> py_error + registry" where
  "events_loop [] r = Inr r"
| "events_loop (event # rest) r =
     (case event_body event r of
        Inl e \<Rightarrow> Inl e
      | Inr r' \<Rightarrow> events_loop rest r')"

text \<open>
  The callback (lines 46 to 95). Its first argument is \<open>session.events\<close>, the events of
  the session at the time of the call; the second is the session state.
\<close>

definition collect_research_sources_callback :: "Event list \<Rightarrow> state \<Rightarrow> py_error + state" where
  "collect_research_sources_callback events st =
     (let u = (case url_to_short_id st of None \<Rightarrow> [] | Some d \<Rightarrow> d);
          s = (case sources st of None \<Rightarrow> [] | Some d \<Rightarrow> d);
          id_counter = length u + 1
      in (case events_loop events (u, s, id_counter) of
            Inl e \<Rightarrow> Inl e
          | Inr (u', s', c') \<Rightarrow> Inr (st\<lparr>url_to_short_id := Some u', sources := Some s'\<rparr>)))"

text \<open>The callback run once per invocation, each with the session's events then.\<close>

fun run_callbacks :: "Event list list \<Rightarrow> state \<Rightarrow> py_error + state" where
  "run_callbacks [] st = Inr st"
| "run_callbacks (events # rest) st =
     (case collect_research_sources_callback events st of
        Inl e \<Rightarrow> Inl e
      | Inr st' \<Rightarrow> run_callbacks rest st')"

section \<open>EscalationChecker\<close>

text \<open>
  \<open>EscalationChecker._run_async_impl\<close> (lines 130 to 143): the events the generator
  yields, for the agent's name and the session state. The evaluation is a dict, which
  is true when it is not empty. The checker writes nothing to the state.
\<close>

definition escalation_checker :: "string \<Rightarrow> state \<Rightarrow> Event list" where
  "escalation_checker name st =
     (let evaluation_result = research_evaluation st
      in (if (case evaluation_result of None \<Rightarrow> False
              | Some fb \<Rightarrow> fb \<noteq> empty_feedback \<and> grade fb = Some ''pass'')
          then [\<lparr>author = name, actions = \<lparr>escalate = Some True\<rparr>, grounding_metadata = None\<rparr>]
          else [\<lparr>author = name, actions = \<lparr>escalate = None\<rparr>, grounding_metadata = None\<rparr>]))"

text \<open>An event signals escalation when its flag is set and true.\<close>

definition signals_escalate :: "Event \<Rightarrow> bool" where
  "signals_escalate ev = (escalate (actions ev) = Some True)"

section \<open>The regular expressions of citation_replacement_callback\<close>

text \<open>
  A text is a list of characters, each a code point below 256. Among these, \<open>\s\<close> of
  a Python str pattern matches the characters for which \<open>str.isspace\<close> holds and
  \<open>\d\<close> matches the ten ASCII digits.
\<close>

definition dquote :: char where
  "dquote = CHR 0x22"

definition squote :: char where
  "squote = CHR 0x27"

definition is_space :: "char \<Rightarrow> bool" where
  "is_space ch \<longleftrightarrow>
     ch \<in> set [CHR 0x09, CHR 0x0A, CHR 0x0B, CHR 0x0C, CHR 0x0D, CHR 0x1C, CHR 0x1D,
               CHR 0x1E, CHR 0x1F, CHR 0x20, CHR 0x85, CHR 0xA0]"

definition is_digit :: "char \<Rightarrow> bool" where
  "is_digit ch \<longleftrightarrow> ch \<in> set ''0123456789''"

definition is_quote :: "char \<Rightarrow> bool" where
  "is_quote ch \<longleftrightarrow> ch = dquote \<or> ch = squote"

definition is_punct :: "char \<Rightarrow> bool" where
  "is_punct ch \<longleftrightarrow> ch \<in> set ''.,;:''"

text \<open>
  The two patterns are sequences of items, an item being a set of characters under one
  of the quantifiers none, \<open>?\<close>, \<open>*\<close>, \<open>+\<close> (all greedy). \<open>alts\<close> lists the texts that
  can remain after an item has matched at the start of a text, in the order in which
  the backtracking matcher tries them: the longest match first.
\<close>

datatype quant = Q_one | Q_opt | Q_star | Q_plus

type_synonym item = "quant \<times> (char \<Rightarrow> bool)"

fun star_alts :: "(char \<Rightarrow> bool) \<Rightarrow> string \<Rightarrow> string list" where
  "star_alts p [] = [[]]"
| "star_alts p (c # cs) = (if p c then star_alts p cs @ [c # cs] else [c # cs])"

fun alts :: "item \<Rightarrow> string \<Rightarrow> string list" where
  "alts (q, p) [] = (case q of Q_one \<Rightarrow> [] | Q_opt \<Rightarrow> [[]] | Q_star \<Rightarrow> [[]] | Q_plus \<Rightarrow> [])"
| "alts (q, p) (c # cs) =
     (case q of
        Q_one \<Rightarrow> (if p c then [cs] else [])
      | Q_opt \<Rightarrow> (if p c then [cs, c # cs] else [c # cs])
      | Q_star \<Rightarrow> star_alts p (c # cs)
      | Q_plus \<Rightarrow> (if p c then star_alts p cs else []))"

text \<open>The texts that can remain after a sequence of items, in the matcher's order.\<close>

fun match_seq :: "item list \<Rightarrow> string \<Rightarrow> string list" where
  "match_seq [] s = [s]"
| "match_seq (it # its) s = concat (map (match_seq its) (alts it s))"

definition lit :: "string \<Rightarrow> item list" where
  "lit w = map (\<lambda>c. (Q_one, (\<lambda>x. x = c))) w"

text \<open>
  \<open>pattern.match\<close> at the start of a text, for a pattern with one group: the items
  before the group, those of the group and those after it. The result is the first
  match in the matcher's order: the matched text, the text of group 1 and the rest.
\<close>

definition match_at ::
  "item list \<Rightarrow> item list \<Rightarrow> item list \<Rightarrow> string \<Rightarrow> (string \<times> string \<times> string) option" where
  "match_at before grp after s =
     (case concat (map (\<lambda>r1. concat (map (\<lambda>r2. map (\<lambda>r3. (r1, r2, r3)) (match_seq after r2))
                                         (match_seq grp r1)))
                       (match_seq before s)) of
        [] \<Rightarrow> None
      | (r1, r2, r3) # _ \<Rightarrow>
          Some (take (length s - length r3) s, take (length r1 - length r2) r1, r3))"

text \<open>Line 114: \<open><cite\s+source\s*=\s*["\']?\s*(src-\d+)\s*["\']?\s*/>\<close>.\<close>

definition cite_match :: "string \<Rightarrow> (string \<times> string \<times> string) option" where
  "cite_match s =
     match_at
       (lit ''<cite'' @ [(Q_plus, is_space)] @ lit ''source'' @ [(Q_star, is_space)] @ lit ''='' @
        [(Q_star, is_space), (Q_opt, is_quote), (Q_star, is_space)])
       (lit ''src-'' @ [(Q_plus, is_digit)])
       ([(Q_star, is_space), (Q_opt, is_quote), (Q_star, is_space)] @ lit ''/>'')
       s"

text \<open>Line 118: \<open>\s+([.,;:])\<close>.\<close>

definition punct_match :: "string \<Rightarrow> (string \<times> string \<times> string) option" where
  "punct_match s = match_at [(Q_plus, is_space)] [(Q_one, is_punct)] [] s"

subsection \<open>A match is a part of the text and leaves less of it\<close>

lemma star_alts_suffix: "r \<in> set (star_alts p s) \<Longrightarrow> suffix r s"
  by (induction s) (auto simp: suffix_Cons split: if_splits)

lemma alts_suffix:
  assumes "r \<in> set (alts it s)"
  shows "suffix r s"
proof (cases it)
  case (Pair q p)
  show ?thesis
  proof (cases s)
    case Nil
    then show ?thesis using Pair assms by (cases q) auto
  next
    case (Cons c cs)
    then show ?thesis using Pair assms star_alts_suffix[of r p]
      by (cases q) (auto simp: suffix_Cons split: if_splits)
  qed
qed

lemma match_seq_suffix: "r \<in> set (match_seq its s) \<Longrightarrow> suffix r s"
proof (induction its arbitrary: s)
  case Nil
  then show ?case by simp
next
  case (Cons it its)
  then obtain a where "a \<in> set (alts it s)" "r \<in> set (match_seq its a)" by auto
  with Cons.IH[of a] alts_suffix[of a it s] show ?case
    by (meson suffix_order.trans)
qed

lemma alts_consumes:
  assumes "r \<in> set (alts (q, p) s)" "q = Q_one \<or> q = Q_plus"
  shows "length r < length s"
proof (cases s)
  case Nil
  then show ?thesis using assms by auto
next
  case (Cons c cs)
  then show ?thesis using assms star_alts_suffix[of r p cs]
    by (auto split: if_splits dest!: suffix_length_le)
qed

lemma match_seq_consumes:
  assumes "r \<in> set (match_seq ((q, p) # its) s)" "q = Q_one \<or> q = Q_plus"
  shows "length r < length s"
proof -
  from assms(1) obtain a where a: "a \<in> set (alts (q, p) s)" "r \<in> set (match_seq its a)"
    by auto
  from alts_consumes[OF a(1) assms(2)] suffix_length_le[OF match_seq_suffix[OF a(2)]]
  show ?thesis by simp
qed

lemma match_at_SomeD:
  assumes "match_at before grp after s = Some (whole, g1, rest)"
  shows "\<exists>r1 r2. r1 \<in> set (match_seq before s) \<and> r2 \<in> set (match_seq grp r1) \<and>
           rest \<in> set (match_seq after r2) \<and>
           whole = take (length s - length rest) s \<and> g1 = take (length r1 - length r2) r1"
proof -
  let ?all = "concat (map (\<lambda>r1. concat (map (\<lambda>r2. map (\<lambda>r3. (r1, r2, r3)) (match_seq after r2))
                                         (match_seq grp r1)))
                       (match_seq before s))"
  from assms obtain r1 r2 r3 tl where eq: "?all = (r1, r2, r3) # tl"
    and res: "whole = take (length s - length r3) s" "g1 = take (length r1 - length r2) r1"
      "rest = r3"
    by (auto simp: match_at_def split: list.splits)
  have "(r1, r2, r3) \<in> set ?all" unfolding eq by simp
  then have "r1 \<in> set (match_seq before s) \<and> r2 \<in> set (match_seq grp r1) \<and>
      r3 \<in> set (match_seq after r2)" by auto
  with res show ?thesis by blast
qed

lemma match_at_split:
  assumes "match_at before grp after s = Some (whole, g1, rest)"
  shows "s = whole @ rest"
proof -
  from match_at_SomeD[OF assms] obtain r1 r2 where
    m: "r1 \<in> set (match_seq before s)" "r2 \<in> set (match_seq grp r1)"
       "rest \<in> set (match_seq after r2)" and w: "whole = take (length s - length rest) s"
    by blast
  have "suffix rest s"
    using match_seq_suffix[OF m(1)] match_seq_suffix[OF m(2)] match_seq_suffix[OF m(3)]
    by (meson suffix_order.trans)
  then obtain pre where "s = pre @ rest" by (auto simp: suffix_def)
  then show ?thesis using w by simp
qed

lemma match_at_consumes:
  assumes "match_at ((q, p) # before) grp after s = Some (whole, g1, rest)"
    and "q = Q_one \<or> q = Q_plus"
  shows "length rest < length s"
proof -
  from match_at_SomeD[OF assms(1)] obtain r1 r2 where
    m: "r1 \<in> set (match_seq ((q, p) # before) s)" "r2 \<in> set (match_seq grp r1)"
       "rest \<in> set (match_seq after r2)"
    by blast
  from match_seq_consumes[OF m(1) assms(2)]
    suffix_length_le[OF match_seq_suffix[OF m(2)]] suffix_length_le[OF match_seq_suffix[OF m(3)]]
  show ?thesis by simp
qed

lemma cite_match_consumes: "cite_match s = Some (whole, g1, rest) \<Longrightarrow> length rest < length s"
  unfolding cite_match_def lit_def by (simp, erule match_at_consumes) simp

lemma punct_match_consumes: "punct_match s = Some (whole, g1, rest) \<Longrightarrow> length rest < length s"
  unfolding punct_match_def by (erule match_at_consumes) simp

lemma cite_match_split: "cite_match s = Some (whole, g1, rest) \<Longrightarrow> s = whole @ rest"
  unfolding cite_match_def by (rule match_at_split)

lemma punct_match_split: "punct_match s = Some (whole, g1, rest) \<Longrightarrow> s = whole @ rest"
  unfolding punct_match_def by (rule match_at_split)

section \<open>citation_replacement_callback\<close>

text \<open>
  \<open>tag_replacer\<close> (lines 105 to 111) for a match with the text \<open>whole\<close> and group 1
  \<open>short_id\<close>: the replacement and the warnings logged. A source that is missing, or
  that is the empty dict, is false in line 107. \<open>dict.get\<close> gives its default only
  when the key is absent; \<open>source_info['url']\<close> raises \<open>KeyError\<close> without the key.
\<close>

definition tag_replacer ::
  "(string, source_info) pydict \<Rightarrow> string \<Rightarrow> string \<Rightarrow> py_error + string \<times> string list" where
  "tag_replacer srcs whole short_id =
     (case dict_get srcs short_id of
        None \<Rightarrow> Inr ([], [''Invalid citation tag found and removed: '' @ whole])
      | Some source_info \<Rightarrow>
          (if source_info = empty_dict
           then Inr ([], [''Invalid citation tag found and removed: '' @ whole])
           else (let display_text =
                       (case src_title source_info of
                          Some t \<Rightarrow> t
                        | None \<Rightarrow> (case src_domain source_info of Some d \<Rightarrow> d | None \<Rightarrow> short_id))
                 in (case src_url source_info of
                       None \<Rightarrow> Inl KeyError
                     | Some url \<Rightarrow> Inr ('' ['' @ display_text @ '']('' @ url @ '')'', [])))))"

text \<open>
  \<open>re.sub\<close> with the citation pattern and \<open>tag_replacer\<close> (lines 113 to 117): the text
  is scanned from the left; at a match the replacement is emitted and the scan goes on
  after the match; otherwise the character is kept. The result is the new text and the
  warnings, or the error of the first replacement that raises.
\<close>

function sub_cite ::
  "(string, source_info) pydict \<Rightarrow> string \<Rightarrow> py_error + string \<times> string list" where
  "sub_cite srcs [] = Inr ([], [])"
| "sub_cite srcs (c # cs) =
     (case cite_match (c # cs) of
        None \<Rightarrow>
          (case sub_cite srcs cs of
             Inl e \<Rightarrow> Inl e
           | Inr (out, logged) \<Rightarrow> Inr (c # out, logged))
      | Some (whole, short_id, rest) \<Rightarrow>
          (case tag_replacer srcs whole short_id of
             Inl e \<Rightarrow> Inl e
           | Inr (repl, warned) \<Rightarrow>
               (case sub_cite srcs rest of
                  Inl e \<Rightarrow> Inl e
                | Inr (out, logged) \<Rightarrow> Inr (repl @ out, warned @ logged))))"
  by pat_completeness auto
termination
  by (relation "measure (\<lambda>(srcs, s). length s)") (auto dest: cite_match_consumes)

text \<open>\<open>re.sub(r"\s+([.,;:])", r"\1", ...)\<close> (line 118).\<close>

function sub_punct :: "string \<Rightarrow> string" where
  "sub_punct [] = []"
| "sub_punct (c # cs) =
     (case punct_match (c # cs) of
        None \<Rightarrow> c # sub_punct cs
      | Some (whole, g1, rest) \<Rightarrow> g1 @ sub_punct rest)"
  by pat_completeness auto
termination
  by (relation "measure length") (auto dest: punct_match_consumes)

text \<open>
  The callback (lines 98 to 120): the state with the processed report stored, the text
  of the returned content and the warnings logged.
\<close>

definition citation_replacement_callback :: "state \<Rightarrow> py_error + state \<times> string \<times> string list" where
  "citation_replacement_callback st =
     (let final_report = (case final_cited_report st of None \<Rightarrow> [] | Some t \<Rightarrow> t);
          srcs = (case sources st of None \<Rightarrow> [] | Some d \<Rightarrow> d)
      in (case sub_cite srcs final_report of
            Inl e \<Rightarrow> Inl e
          | Inr (replaced, logged) \<Rightarrow>
              (let processed_report = sub_punct replaced
               in Inr (st\<lparr>final_report_with_citations := Some processed_report\<rparr>,
                       processed_report, logged))))"

section \<open>The bounded retry loop\<close>

text \<open>
  Modelled from the spec: the stage contract of section 6. The stages are agents of the
  google.adk library, whose code is not part of the repository. A stage takes the
  shared state and returns the state it leaves and whether it signals escalate, or
  fails.
\<close>

datatype stage_failure = StageFailure

record stage =
  stage_name :: string
  execute :: "state \<Rightarrow> stage_failure + state \<times> bool"

datatype loop_end = Escalated | Exhausted

text \<open>
  Modelled from the spec: the bounded retry loop controller of section 4.4. The
  controller that runs \<open>iterative_refinement_loop\<close> is the \<open>LoopAgent\<close> class of the
  google.adk library, whose code is not part of the repository; the repository only
  instantiates it (lines 326 to 334). The controller runs the sub-stages in order, once
  per iteration; after a sub-stage that signals escalate the loop ends and the remaining
  sub-stages are skipped; after \<open>N\<close> iterations without escalation it ends by
  exhaustion; a failure of a stage is passed on. The result also lists the names of the
  stages in the order in which they ran.
\<close>

fun run_sub_stages :: "stage list \<Rightarrow> state \<Rightarrow> stage_failure + state \<times> string list \<times> bool" where
  "run_sub_stages [] st = Inr (st, [], False)"
| "run_sub_stages (stg # rest) st =
     (case execute stg st of
        Inl f \<Rightarrow> Inl f
      | Inr (st', esc) \<Rightarrow>
          (if esc then Inr (st', [stage_name stg], True)
           else (case run_sub_stages rest st' of
                   Inl f \<Rightarrow> Inl f
                 | Inr (st'', names, esc') \<Rightarrow> Inr (st'', stage_name stg # names, esc'))))"

fun bounded_loop ::
  "nat \<Rightarrow> stage list \<Rightarrow> state \<Rightarrow> stage_failure + state \<times> string list \<times> loop_end" where
  "bounded_loop 0 stages st = Inr (st, [], Exhausted)"
| "bounded_loop (Suc n) stages st =
     (case run_sub_stages stages st of
        Inl f \<Rightarrow> Inl f
      | Inr (st', names, esc) \<Rightarrow>
          (if esc then Inr (st', names, Escalated)
           else (case bounded_loop n stages st' of
                   Inl f \<Rightarrow> Inl f
                 | Inr (st'', names', e) \<Rightarrow> Inr (st'', names @ names', e))))"

text \<open>
  The three sub-stages of \<open>iterative_refinement_loop\<close> (lines 329 to 333). The evaluator
  and the refiner are language-model agents: what they do to the state is a parameter,
  and they do not signal escalate. The checker is the \<open>EscalationChecker\<close> of the
  source; it leaves the state as it is and signals escalate when an event it yields
  does.
\<close>

definition llm_stage :: "string \<Rightarrow> (state \<Rightarrow> stage_failure + state) \<Rightarrow> stage" where
  "llm_stage name f =
     \<lparr>stage_name = name,
      execute = (\<lambda>st. case f st of Inl e \<Rightarrow> Inl e | Inr st' \<Rightarrow> Inr (st', False))\<rparr>"

definition checker_stage :: stage where
  "checker_stage =
     \<lparr>stage_name = ''escalation_checker'',
      execute = (\<lambda>st. Inr (st, list_ex signals_escalate (escalation_checker ''escalation_checker'' st)))\<rparr>"

definition iterative_refinement_loop ::
  "nat \<Rightarrow> (state \<Rightarrow> stage_failure + state) \<Rightarrow> (state \<Rightarrow> stage_failure + state) \<Rightarrow> state
     \<Rightarrow> stage_failure + state \<times> string list \<times> loop_end" where
  "iterative_refinement_loop N evaluator refiner st =
     bounded_loop N
       [llm_stage ''research_evaluator'' evaluator, checker_stage,
        llm_stage ''enhanced_search_executor'' refiner] st"

section \<open>Notions used in the properties\<close>

text \<open>
  The number that a decimal text denotes, digit by digit. It inverts \<open>str_nat\<close>, which
  is therefore injective.
\<close>

definition digit_val :: "char \<Rightarrow> nat" where
  "digit_val ch = of_char ch - 48"

definition nat_of_str :: "string \<Rightarrow> nat" where
  "nat_of_str cs = foldl (\<lambda>a ch. 10 * a + digit_val ch) 0 cs"

text \<open>
  A registry as the callback leaves it: the counter is one more than the number of URLs,
  the ids are \<open>src-1\<close> to \<open>src-k\<close> in insertion order, \<open>sources\<close> has exactly these
  ids as keys, in the same order, and every source has its list of claims.
\<close>

definition registry_ok :: "registry \<Rightarrow> bool" where
  "registry_ok r =
     (case r of (u, s, c) \<Rightarrow>
        c = length u + 1 \<and> distinct (map fst u) \<and>
        map snd u = map (\<lambda>n. ''src-'' @ str_nat n) [1..<c] \<and>
        map fst s = map snd u \<and>
        list_all (\<lambda>(k, info). src_supported_claims info \<noteq> None) s)"

text \<open>
  The elements of a list in the order of their first occurrence, each once, after those
  already seen.
\<close>

fun first_seen_from :: "'a list \<Rightarrow> 'a list \<Rightarrow> 'a list" where
  "first_seen_from seen [] = seen"
| "first_seen_from seen (x # xs) =
     first_seen_from (if x \<in> set seen then seen else seen @ [x]) xs"

text \<open>
  The URLs of the chunks with a web reference, in order, and the short id that an index
  gives to the chunk at a position of an event's chunks: none for a position outside
  the chunks and for a chunk without a web reference.
\<close>

fun chunk_urls :: "GroundingChunk list \<Rightarrow> string list" where
  "chunk_urls [] = []"
| "chunk_urls (chunk # rest) =
     (case web chunk of None \<Rightarrow> chunk_urls rest | Some w \<Rightarrow> uri w # chunk_urls rest)"

definition chunk_sid ::
  "(string, string) pydict \<Rightarrow> GroundingChunk list \<Rightarrow> int \<Rightarrow> string option" where
  "chunk_sid u chunks idx =
     (if 0 \<le> idx \<and> idx < int (length chunks)
      then (case web (chunks ! nat idx) of None \<Rightarrow> None | Some w \<Rightarrow> dict_get u (uri w))
      else None)"

text \<open>
  What a \<open>sources\<close> dict holds for a short id: the claims, and the four identity fields.
  \<open>sources_ok\<close>: every source has a list of claims. \<open>claims_added\<close>: the second dict is
  the first with the claims \<open>delta\<close> appended and nothing else changed.
\<close>

definition claims_of :: "(string, source_info) pydict \<Rightarrow> string \<Rightarrow> Claim list" where
  "claims_of s sid =
     (case dict_get s sid of None \<Rightarrow> [] | Some info \<Rightarrow> or_empty (src_supported_claims info))"

definition identity_of ::
  "(string, source_info) pydict \<Rightarrow> string
     \<Rightarrow> (string option \<times> string option \<times> string option \<times> string option) option" where
  "identity_of s sid =
     map_option (\<lambda>info. (src_short_id info, src_title info, src_url info, src_domain info))
       (dict_get s sid)"

definition sources_ok :: "(string, source_info) pydict \<Rightarrow> bool" where
  "sources_ok s = list_all (\<lambda>(k, info). src_supported_claims info \<noteq> None) s"

definition claims_added ::
  "(string, source_info) pydict \<Rightarrow> (string, source_info) pydict \<Rightarrow> (string \<Rightarrow> Claim list) \<Rightarrow> bool" where
  "claims_added s s' delta \<longleftrightarrow>
     map fst s' = map fst s \<and> sources_ok s' \<and> (\<forall>k. identity_of s' k = identity_of s k) \<and>
     (\<forall>k. claims_of s' k = claims_of s k @ delta k)"

text \<open>
  The claims that the code appends to the source \<open>sid\<close>: for positions paired with chunk
  indices, for one support, for one event and for a list of events. \<open>look\<close> gives the
  short id of a chunk index.
\<close>

definition position_claims ::
  "(int \<Rightarrow> string option) \<Rightarrow> real list \<Rightarrow> Segment option \<Rightarrow> (nat \<times> int) list \<Rightarrow> string
     \<Rightarrow> Claim list" where
  "position_claims look scores seg ps sid =
     map (\<lambda>(i, idx). make_claim scores seg i) (filter (\<lambda>(i, idx). look idx = Some sid) ps)"

definition support_claims :: "(int \<Rightarrow> string option) \<Rightarrow> GroundingSupport \<Rightarrow> string \<Rightarrow> Claim list" where
  "support_claims look support sid =
     position_claims look (or_empty (confidence_scores support)) (segment support)
       (enumerate 0 (or_empty (grounding_chunk_indices support))) sid"

definition event_chunks :: "Event \<Rightarrow> GroundingChunk list" where
  "event_chunks ev =
     (case grounding_metadata ev of None \<Rightarrow> [] | Some gm \<Rightarrow> or_empty (grounding_chunks gm))"

definition event_supports :: "Event \<Rightarrow> GroundingSupport list" where
  "event_supports ev =
     (case grounding_metadata ev of None \<Rightarrow> [] | Some gm \<Rightarrow> or_empty (grounding_supports gm))"

definition event_urls :: "Event \<Rightarrow> string list" where
  "event_urls ev = chunk_urls (event_chunks ev)"

definition event_claims :: "(string, string) pydict \<Rightarrow> Event \<Rightarrow> string \<Rightarrow> Claim list" where
  "event_claims u ev sid =
     concat (map (\<lambda>sup. support_claims (chunk_sid u (event_chunks ev)) sup sid) (event_supports ev))"

text \<open>
  \<open>grows\<close>: the second registry is well formed and comes from the first by registering
  the new URLs among \<open>urls\<close> in first-seen order and appending the claims \<open>delta\<close>: the
  index and the keys of \<open>sources\<close> are extended at the end and a source that existed
  keeps its identity fields.
\<close>

definition grows ::
  "registry \<Rightarrow> registry \<Rightarrow> string list \<Rightarrow> (string \<Rightarrow> Claim list) \<Rightarrow> bool" where
  "grows r r' urls delta \<longleftrightarrow>
     registry_ok r' \<and> prefix (fst r) (fst r') \<and>
     map fst (fst r') = first_seen_from (map fst (fst r)) urls \<and>
     prefix (map fst (fst (snd r))) (map fst (fst (snd r'))) \<and>
     (\<forall>k. identity_of (fst (snd r)) k \<noteq> None \<longrightarrow>
        identity_of (fst (snd r')) k = identity_of (fst (snd r)) k) \<and>
     (\<forall>k. claims_of (fst (snd r')) k = claims_of (fst (snd r)) k @ delta k)"

definition events_claims :: "(string, string) pydict \<Rightarrow> Event list \<Rightarrow> string \<Rightarrow> Claim list" where
  "events_claims u evs sid = concat (map (\<lambda>ev. event_claims u ev sid) evs)"

text \<open>
  The registry a state holds, as the callback reads it (lines 49 to 51), and the states
  whose registry is well formed.
\<close>

definition get_url_to_short_id :: "state \<Rightarrow> (string, string) pydict" where
  "get_url_to_short_id st = (case url_to_short_id st of None \<Rightarrow> [] | Some d \<Rightarrow> d)"

definition get_sources :: "state \<Rightarrow> (string, source_info) pydict" where
  "get_sources st = (case sources st of None \<Rightarrow> [] | Some d \<Rightarrow> d)"

definition registry_of :: "state \<Rightarrow> registry" where
  "registry_of st =
     (get_url_to_short_id st, get_sources st, length (get_url_to_short_id st) + 1)"

definition state_ok :: "state \<Rightarrow> bool" where
  "state_ok st = registry_ok (registry_of st)"

text \<open>
  The state holds an evaluation with the grade \<open>pass\<close>; the names of the stages of one
  full iteration.
\<close>

definition graded_pass :: "state \<Rightarrow> bool" where
  "graded_pass st = (\<exists>fb. research_evaluation st = Some fb \<and> grade fb = Some ''pass'')"

definition full_iteration :: "string list" where
  "full_iteration = [''research_evaluator'', ''escalation_checker'', ''enhanced_search_executor'']"

text \<open>
  The state in which the final report and the sources are set and nothing else.
\<close>

definition report_state :: "string \<Rightarrow> (string, source_info) pydict \<Rightarrow> state" where
  "report_state report srcs = initial_state\<lparr>sources := Some srcs, final_cited_report := Some report\<rparr>"

text \<open>\<open>render(text, sources)\<close> of the specification: the text the callback returns.\<close>

definition render :: "string \<Rightarrow> (string, source_info) pydict \<Rightarrow> py_error + string" where
  "render report srcs =
     (case citation_replacement_callback (report_state report srcs) of
        Inl e \<Rightarrow> Inl e
      | Inr (st, processed_report, logged) \<Rightarrow> Inr processed_report)"

text \<open>The marker \<open><cite source="src-N" />\<close> for the digits \<open>N\<close>.\<close>

definition cite_marker :: "string \<Rightarrow> string" where
  "cite_marker ds = ''<cite source='' @ [dquote] @ ''src-'' @ ds @ [dquote] @ '' />''"


text \<open>Some position of the text starts a match.\<close>

fun contains_marker :: "string \<Rightarrow> bool" where
  "contains_marker [] = False"
| "contains_marker (c # cs) = (cite_match (c # cs) \<noteq> None \<or> contains_marker cs)"

text \<open>
  The texts that the pattern of line 114 accepts, written out: \<open><cite\<close>, whitespace,
  \<open>source\<close>, \<open>=\<close>, an optional quote, \<open>src-\<close> and digits, an optional quote, \<open>/>\<close>, with
  optional whitespace around \<open>=\<close>, around the quotes and before \<open>/>\<close>. The second argument
  is the text of group 1.
\<close>

definition spaces :: "string \<Rightarrow> bool" where
  "spaces w = list_all is_space w"

definition opt_quote :: "string \<Rightarrow> bool" where
  "opt_quote q \<longleftrightarrow> q = [] \<or> q = [dquote] \<or> q = [squote]"

definition accepted_marker :: "string \<Rightarrow> string \<Rightarrow> bool" where
  "accepted_marker m sid \<longleftrightarrow>
     (\<exists>w1 w2 w3 q1 w4 ds w5 q2 w6.
        m = ''<cite'' @ w1 @ ''source'' @ w2 @ ''='' @ w3 @ q1 @ w4 @ ''src-'' @ ds @
            w5 @ q2 @ w6 @ ''/>'' \<and>
        sid = ''src-'' @ ds \<and>
        w1 \<noteq> [] \<and> spaces w1 \<and> spaces w2 \<and> spaces w3 \<and> opt_quote q1 \<and> spaces w4 \<and>
        ds \<noteq> [] \<and> list_all is_digit ds \<and>
        spaces w5 \<and> opt_quote q2 \<and> spaces w6)"

text \<open>A character that may stand between \<open>=\<close> and the id, or between the id and \<open>/>\<close>.\<close>

definition is_gap :: "char \<Rightarrow> bool" where
  "is_gap ch \<longleftrightarrow> is_space ch \<or> is_quote ch"




text \<open>
  \<open>triples\<close>: all the matches of a pattern with one group at the start of a text, as the
  texts that remain after the three parts of the pattern. \<open>rejects\<close>: no item of the list
  accepts the character. The citation pattern after its first character, \<open><\<close>.
\<close>

definition triples ::
  "item list \<Rightarrow> item list \<Rightarrow> item list \<Rightarrow> string \<Rightarrow> (string \<times> string \<times> string) list" where
  "triples before grp after s =
     concat (map (\<lambda>r1. concat (map (\<lambda>r2. map (\<lambda>r3. (r1, r2, r3)) (match_seq after r2))
                                      (match_seq grp r1)))
                 (match_seq before s))"

definition rejects :: "char \<Rightarrow> item list \<Rightarrow> bool" where
  "rejects c its = list_all (\<lambda>(q, p). \<not> p c) its"

definition cite_before :: "item list" where
  "cite_before =
     lit ''cite'' @ [(Q_plus, is_space)] @ lit ''source'' @ [(Q_star, is_space)] @ lit ''='' @
       [(Q_star, is_space), (Q_opt, is_quote), (Q_star, is_space)]"

definition cite_group :: "item list" where
  "cite_group = lit ''src-'' @ [(Q_plus, is_digit)]"

definition cite_after :: "item list" where
  "cite_after = [(Q_star, is_space), (Q_opt, is_quote), (Q_star, is_space)] @ lit ''/>''"

subsection \<open>Example inputs\<close>

text \<open>
  The event and the source of the example of section 8 of the specification, two chunks
  of which the second has no web reference, evaluators and refiners for the loop, the
  source of the rendering example, an event whose chunk has the empty title with the
  source that the callback makes of it, and an event over the two chunks whose support
  names the chunk without a web reference between two uses of the other chunk.
\<close>

definition example_event :: Event where
  "example_event =
     \<lparr>author = ''section_researcher'', actions = \<lparr>escalate = None\<rparr>,
      grounding_metadata = Some
        \<lparr>grounding_chunks = Some
           [\<lparr>web = Some \<lparr>uri = ''https://a.com'', title = ''A'', domain = ''a.com''\<rparr>\<rparr>],
         grounding_supports = Some
           [\<lparr>segment = Some \<lparr>seg_text = ''claim text''\<rparr>, confidence_scores = Some [0.9],
             grounding_chunk_indices = Some [0]\<rparr>]\<rparr>\<rparr>"

definition example_source :: "Claim list \<Rightarrow> source_info" where
  "example_source cls =
     \<lparr>src_short_id = Some ''src-1'', src_title = Some ''A'', src_url = Some ''https://a.com'',
      src_domain = Some ''a.com'', src_supported_claims = Some cls\<rparr>"

definition example_chunks :: "GroundingChunk list" where
  "example_chunks =
     [\<lparr>web = Some \<lparr>uri = ''https://a.com'', title = ''A'', domain = ''a.com''\<rparr>\<rparr>,
      \<lparr>web = None\<rparr>]"

definition failing_grade :: feedback where
  "failing_grade = \<lparr>grade = Some ''fail'', comment = Some ''more research'', follow_up_queries = None\<rparr>"

definition passing_grade :: feedback where
  "passing_grade = \<lparr>grade = Some ''pass'', comment = Some ''sufficient'', follow_up_queries = None\<rparr>"

definition never_pass_evaluator :: "state \<Rightarrow> stage_failure + state" where
  "never_pass_evaluator s = Inr (s\<lparr>research_evaluation := Some failing_grade\<rparr>)"

definition idle_refiner :: "state \<Rightarrow> stage_failure + state" where
  "idle_refiner s = Inr s"

definition second_pass_evaluator :: "state \<Rightarrow> stage_failure + state" where
  "second_pass_evaluator s =
     Inr (s\<lparr>research_evaluation :=
            Some (if sources s = None then failing_grade else passing_grade)\<rparr>)"

definition marking_refiner :: "state \<Rightarrow> stage_failure + state" where
  "marking_refiner s = Inr (s\<lparr>sources := Some []\<rparr>)"

definition titled_source :: source_info where
  "titled_source =
     \<lparr>src_short_id = None, src_title = Some ''A'', src_url = Some ''https://a.com'',
      src_domain = None, src_supported_claims = None\<rparr>"

definition untitled_event :: Event where
  "untitled_event =
     \<lparr>author = ''section_researcher'', actions = \<lparr>escalate = None\<rparr>,
      grounding_metadata = Some
        \<lparr>grounding_chunks = Some
           [\<lparr>web = Some \<lparr>uri = ''https://a.com'', title = [], domain = ''a.com''\<rparr>\<rparr>],
         grounding_supports = None\<rparr>\<rparr>"

definition untitled_source :: source_info where
  "untitled_source =
     \<lparr>src_short_id = Some ''src-1'', src_title = Some [], src_url = Some ''https://a.com'',
      src_domain = Some ''a.com'', src_supported_claims = Some []\<rparr>"

definition mixed_support :: GroundingSupport where
  "mixed_support =
     \<lparr>segment = Some \<lparr>seg_text = ''claim text''\<rparr>, confidence_scores = Some [0.9],
      grounding_chunk_indices = Some [0, 1, 0]\<rparr>"

definition mixed_event :: Event where
  "mixed_event =
     \<lparr>author = ''section_researcher'', actions = \<lparr>escalate = None\<rparr>,
      grounding_metadata = Some
        \<lparr>grounding_chunks = Some example_chunks,
         grounding_supports = Some [mixed_support]\<rparr>\<rparr>"

section \<open>Facts about dicts and decimal numerals\<close>

lemma dict_get_set: "dict_get (dict_set d k v) k' = (if k' = k then Some v else dict_get d k')"
  by (induction d) (auto simp: dict_get_def)

lemma dict_set_new: "dict_get d k = None \<Longrightarrow> dict_set d k v = d @ [(k, v)]"
  by (induction d) (auto simp: dict_get_def split: if_splits)

lemma dict_set_keys: "dict_get d k = Some v0 \<Longrightarrow> map fst (dict_set d k v) = map fst d"
  by (induction d) (auto simp: dict_get_def split: if_splits)

lemma dict_get_None_iff: "dict_get d k = None \<longleftrightarrow> k \<notin> set (map fst d)"
  by (simp add: dict_get_def map_of_eq_None_iff)

lemma dict_get_append_Some: "dict_get d k = Some v \<Longrightarrow> dict_get (d @ e) k = Some v"
  by (simp add: dict_get_def)

lemma digit_val_char: "d < 10 \<Longrightarrow> digit_val (digit_char d) = d"
proof -
  assume "d < 10"
  then have "d \<in> {0, 1, 2, 3, 4, 5, 6, 7, 8, 9}" by auto
  then show ?thesis
    by (auto simp: digit_val_def digit_char_def)
qed

lemma nat_of_str_nat: "nat_of_str (str_nat n) = n"
proof (induction n rule: str_nat.induct)
  case (1 n)
  show ?case
  proof (cases "n < 10")
    case True
    then show ?thesis by (subst str_nat.simps) (simp add: nat_of_str_def digit_val_char)
  next
    case False
    with 1 have "nat_of_str (str_nat (n div 10)) = n div 10" by simp
    with False show ?thesis
      by (subst str_nat.simps) (simp add: nat_of_str_def digit_val_char)
  qed
qed

lemma str_nat_inj: "str_nat m = str_nat n \<Longrightarrow> m = n"
  by (metis nat_of_str_nat)

section \<open>Facts about the registry\<close>

lemma short_id_fresh:
  "''src-'' @ str_nat c \<notin> set (map (\<lambda>n. ''src-'' @ str_nat n) [1..<c])"
  by (auto dest: str_nat_inj)

lemma register_web_known:
  "dict_get u (uri w) = Some sid \<Longrightarrow> register_web w (u, s, c) = (u, s, c)"
  by (simp add: register_web_def)

lemma register_web_new:
  assumes "registry_ok (u, s, c)" "dict_get u (uri w) = None"
  shows "register_web w (u, s, c) =
    (u @ [(uri w, ''src-'' @ str_nat c)],
     s @ [(''src-'' @ str_nat c,
       \<lparr>src_short_id = Some (''src-'' @ str_nat c),
        src_title = Some (title w),
        src_url = Some (uri w), src_domain = Some (domain w),
        src_supported_claims = Some []\<rparr>)],
     c + 1)"
proof -
  have "''src-'' @ str_nat c \<notin> set (map fst s)"
    using assms(1) short_id_fresh[of c] by (simp add: registry_ok_def)
  then have "dict_get s (''src-'' @ str_nat c) = None"
    by (simp add: dict_get_None_iff)
  then show ?thesis
    using assms(2) by (simp add: register_web_def Let_def dict_set_new)
qed

lemma register_web_ok:
  assumes "registry_ok r"
  shows "registry_ok (register_web w r)"
proof -
  obtain u s c where r: "r = (u, s, c)" by (cases r) auto
  show ?thesis
  proof (cases "dict_get u (uri w)")
    case None
    have "uri w \<notin> set (map fst u)" using None by (simp add: dict_get_None_iff)
    then show ?thesis
      using assms register_web_new[of u s c w] None unfolding r
      by (simp add: registry_ok_def)
  next
    case (Some sid)
    then show ?thesis using assms r by (simp add: register_web_known)
  qed
qed

lemma register_web_cases:
  assumes "registry_ok (u, s, c)"
  obtains (known) sid where "dict_get u (uri w) = Some sid" "register_web w (u, s, c) = (u, s, c)"
  | (new) info where "dict_get u (uri w) = None"
      "register_web w (u, s, c) = (u @ [(uri w, ''src-'' @ str_nat c)], s @ [(''src-'' @ str_nat c, info)], c + 1)"
      "src_supported_claims info = Some []"
proof (cases "dict_get u (uri w)")
  case None
  show ?thesis
    by (rule new[OF None register_web_new[OF assms None]]) simp
next
  case (Some sid)
  then show ?thesis using known register_web_known by blast
qed

lemma register_web_get:
  assumes "registry_ok r"
  shows "\<exists>sid. dict_get (fst (register_web w r)) (uri w) = Some sid"
proof (cases r)
  case (fields u s c)
  from assms[unfolded fields] show ?thesis unfolding fields
    by (cases rule: register_web_cases[where w = w]) (auto simp: dict_get_def map_add_def)
qed

lemma register_web_urls:
  assumes "registry_ok r"
  shows "map fst (fst (register_web w r)) =
    (if uri w \<in> set (map fst (fst r)) then map fst (fst r) else map fst (fst r) @ [uri w])"
proof (cases r)
  case (fields u s c)
  from assms[unfolded fields] show ?thesis unfolding fields
  proof (cases rule: register_web_cases[where w = w])
    case (known sid)
    then have "uri w \<in> set (map fst u)" using dict_get_None_iff[of u "uri w"] by simp
    then show "map fst (fst (register_web w (u, s, c))) =
      (if uri w \<in> set (map fst (fst (u, s, c))) then map fst (fst (u, s, c))
       else map fst (fst (u, s, c)) @ [uri w])" using known by simp
  next
    case (new info)
    then have "uri w \<notin> set (map fst u)" using dict_get_None_iff[of u "uri w"] by simp
    then show "map fst (fst (register_web w (u, s, c))) =
      (if uri w \<in> set (map fst (fst (u, s, c))) then map fst (fst (u, s, c))
       else map fst (fst (u, s, c)) @ [uri w])" using new by simp
  qed
qed

lemma register_web_prefix:
  assumes "registry_ok r"
  shows "prefix (fst r) (fst (register_web w r)) \<and>
         prefix (fst (snd r)) (fst (snd (register_web w r)))"
proof (cases r)
  case (fields u s c)
  from assms[unfolded fields] show ?thesis unfolding fields
    by (cases rule: register_web_cases[where w = w]) auto
qed

lemma chunks_loop_noweb:
  "web chunk = None \<Longrightarrow>
     chunks_loop idx (chunk # rest) (r, ci) = chunks_loop (idx + 1) rest (r, ci)"
  by simp

lemma chunks_loop_web:
  "web chunk = Some w \<Longrightarrow> dict_get (fst (register_web w r)) (uri w) = Some sid \<Longrightarrow>
     chunks_loop idx (chunk # rest) (r, ci) =
       chunks_loop (idx + 1) rest (register_web w r, dict_set ci idx sid)"
  by simp

lemma chunks_loop_total:
  "registry_ok r \<Longrightarrow> \<exists>r' ci'. chunks_loop idx chunks (r, ci) = Inr (r', ci') \<and> registry_ok r'"
proof (induction chunks arbitrary: idx r ci)
  case Nil
  then show ?case by simp
next
  case (Cons chunk rest)
  show ?case
  proof (cases "web chunk")
    case None
    show ?thesis unfolding chunks_loop_noweb[OF None] by (rule Cons.IH[OF Cons.prems])
  next
    case (Some w)
    obtain sid where sid: "dict_get (fst (register_web w r)) (uri w) = Some sid"
      using register_web_get[OF Cons.prems] by blast
    show ?thesis unfolding chunks_loop_web[OF Some sid]
      by (rule Cons.IH[OF register_web_ok[OF Cons.prems, of w]])
  qed
qed

lemma chunks_loop_urls:
  "registry_ok r \<Longrightarrow> chunks_loop idx chunks (r, ci) = Inr (r', ci') \<Longrightarrow>
     map fst (fst r') = first_seen_from (map fst (fst r)) (chunk_urls chunks)"
proof (induction chunks arbitrary: idx r ci)
  case Nil
  then show ?case by simp
next
  case (Cons chunk rest)
  show ?case
  proof (cases "web chunk")
    case None
    from Cons.IH[OF Cons.prems(1) Cons.prems(2)[unfolded chunks_loop_noweb[OF None]]]
    show ?thesis using None by simp
  next
    case (Some w)
    obtain sid where sid: "dict_get (fst (register_web w r)) (uri w) = Some sid"
      using register_web_get[OF Cons.prems(1)] by blast
    from Cons.IH[OF register_web_ok[OF Cons.prems(1)] Cons.prems(2)[unfolded chunks_loop_web[OF Some sid]]]
    show ?thesis using Some register_web_urls[OF Cons.prems(1), of w] by simp
  qed
qed

lemma chunks_loop_prefix:
  "registry_ok r \<Longrightarrow> chunks_loop idx chunks (r, ci) = Inr (r', ci') \<Longrightarrow>
     prefix (fst r) (fst r') \<and> prefix (fst (snd r)) (fst (snd r'))"
proof (induction chunks arbitrary: idx r ci)
  case Nil
  then show ?case by simp
next
  case (Cons chunk rest)
  show ?case
  proof (cases "web chunk")
    case None
    from Cons.IH[OF Cons.prems(1) Cons.prems(2)[unfolded chunks_loop_noweb[OF None]]]
    show ?thesis .
  next
    case (Some w)
    obtain sid where sid: "dict_get (fst (register_web w r)) (uri w) = Some sid"
      using register_web_get[OF Cons.prems(1)] by blast
    from Cons.IH[OF register_web_ok[OF Cons.prems(1)] Cons.prems(2)[unfolded chunks_loop_web[OF Some sid]]]
    show ?thesis using register_web_prefix[OF Cons.prems(1), of w]
      by (meson prefix_order.trans)
  qed
qed

lemma dict_get_prefix: "prefix d d' \<Longrightarrow> dict_get d k = Some v \<Longrightarrow> dict_get d' k = Some v"
  by (auto simp: prefix_def dict_get_append_Some)

lemma chunk_sid_Cons:
  "chunk_sid u (chunk # rest) idx =
     (if idx = 0 then (case web chunk of None \<Rightarrow> None | Some w \<Rightarrow> dict_get u (uri w))
      else chunk_sid u rest (idx - 1))"
proof -
  have n: "0 < idx \<Longrightarrow> nat idx = Suc (nat (idx - 1))" by simp
  show ?thesis using n by (auto simp: chunk_sid_def)
qed

lemma chunk_sid_Nil: "chunk_sid u [] idx = None"
  by (auto simp: chunk_sid_def)

lemma chunk_sid_neg: "idx < 0 \<Longrightarrow> chunk_sid u chunks idx = None"
  by (auto simp: chunk_sid_def)

lemma chunks_loop_info:
  "registry_ok r \<Longrightarrow> chunks_loop idx0 chunks (r, ci) = Inr (r', ci') \<Longrightarrow>
     dict_get ci' idx =
       (case chunk_sid (fst r') chunks (idx - idx0) of Some sid \<Rightarrow> Some sid | None \<Rightarrow> dict_get ci idx)"
proof (induction chunks arbitrary: idx0 r ci)
  case Nil
  then show ?case by (simp add: chunk_sid_Nil)
next
  case (Cons chunk rest)
  have shift: "idx - (idx0 + 1) = idx - idx0 - 1" by simp
  have never: "chunk_sid (fst r') rest (-1) = None" by (simp add: chunk_sid_neg)
  show ?case
  proof (cases "web chunk")
    case None
    have ih: "dict_get ci' idx =
       (case chunk_sid (fst r') rest (idx - idx0 - 1) of Some sid \<Rightarrow> Some sid | None \<Rightarrow> dict_get ci idx)"
      using Cons.IH[OF Cons.prems(1) Cons.prems(2)[unfolded chunks_loop_noweb[OF None]]] shift
      by simp
    show ?thesis
    proof (cases "idx = idx0")
      case True
      then show ?thesis using ih never None by (simp add: chunk_sid_Cons)
    next
      case False
      then show ?thesis using ih by (simp add: chunk_sid_Cons)
    qed
  next
    case (Some w)
    obtain sid where sid: "dict_get (fst (register_web w r)) (uri w) = Some sid"
      using register_web_get[OF Cons.prems(1)] by blast
    note run = Cons.prems(2)[unfolded chunks_loop_web[OF Some sid]]
    note ok' = register_web_ok[OF Cons.prems(1), of w]
    have ih: "dict_get ci' idx =
       (case chunk_sid (fst r') rest (idx - idx0 - 1) of Some sid \<Rightarrow> Some sid
        | None \<Rightarrow> dict_get (dict_set ci idx0 sid) idx)"
      using Cons.IH[OF ok' run] shift by simp
    have sid': "dict_get (fst r') (uri w) = Some sid"
      by (rule dict_get_prefix[OF conjunct1[OF chunks_loop_prefix[OF ok' run]] sid])
    show ?thesis
    proof (cases "idx = idx0")
      case True
      then show ?thesis using ih never Some sid' by (simp add: chunk_sid_Cons dict_get_set)
    next
      case False
      then show ?thesis using ih by (simp add: chunk_sid_Cons dict_get_set split: option.splits)
    qed
  qed
qed

lemma chunks_loop_info0:
  assumes "registry_ok r" "chunks_loop 0 chunks (r, []) = Inr (r', ci')"
  shows "dict_get ci' idx = chunk_sid (fst r') chunks idx"
  using chunks_loop_info[OF assms, of idx]
  by (auto simp: dict_get_def split: option.splits)

lemma claims_added_refl: "sources_ok s \<Longrightarrow> claims_added s s (\<lambda>k. [])"
  by (simp add: claims_added_def)

lemma claims_added_trans:
  "claims_added s s' d \<Longrightarrow> claims_added s' s'' d' \<Longrightarrow> claims_added s s'' (\<lambda>k. d k @ d' k)"
  by (simp add: claims_added_def)

lemma dict_set_list_all: "list_all P d \<Longrightarrow> P (k, v) \<Longrightarrow> list_all P (dict_set d k v)"
  by (induction d) auto

lemma dict_get_sources_ok:
  "sources_ok s \<Longrightarrow> dict_get s sid = Some info \<Longrightarrow> \<exists>cls. src_supported_claims info = Some cls"
proof -
  assume ok: "sources_ok s" and g: "dict_get s sid = Some info"
  from g have "(sid, info) \<in> set s" by (auto simp: dict_get_def dest: map_of_SomeD)
  with ok show ?thesis by (auto simp: sources_ok_def list_all_iff)
qed

lemma dict_get_range: "dict_get d k = Some v \<Longrightarrow> v \<in> set (map snd d)"
  by (auto simp: dict_get_def dest!: map_of_SomeD intro: rev_image_eqI)

lemma append_claim_added:
  assumes ok: "sources_ok s" and mem: "sid \<in> set (map fst s)"
  shows "\<exists>s'. append_claim s sid cl = Inr s' \<and>
           claims_added s s' (\<lambda>k. if k = sid then [cl] else [])"
proof -
  from mem obtain info where g: "dict_get s sid = Some info"
    using dict_get_None_iff[of s sid] by (cases "dict_get s sid") auto
  from dict_get_sources_ok[OF ok g] obtain cls where c: "src_supported_claims info = Some cls"
    by auto
  let ?s' = "dict_set s sid (info\<lparr>src_supported_claims := Some (cls @ [cl])\<rparr>)"
  have run: "append_claim s sid cl = Inr ?s'" by (simp add: append_claim_def g c)
  have "sources_ok ?s'" using ok unfolding sources_ok_def by (rule dict_set_list_all) simp
  moreover have "map fst ?s' = map fst s" by (rule dict_set_keys[OF g])
  moreover have "\<And>k. identity_of ?s' k = identity_of s k"
    by (simp add: identity_of_def dict_get_set g)
  moreover have "\<And>k. claims_of ?s' k = claims_of s k @ (if k = sid then [cl] else [])"
    by (simp add: claims_of_def dict_get_set g c)
  ultimately show ?thesis using run by (simp add: claims_added_def)
qed

lemma indices_loop_added:
  assumes "sources_ok s" and "set (map snd ci) \<subseteq> set (map fst s)"
  shows "\<exists>s'. indices_loop ci scores seg i idxs s = Inr s' \<and>
           claims_added s s' (position_claims (dict_get ci) scores seg (enumerate i idxs))"
  using assms
proof (induction idxs arbitrary: i s)
  case Nil
  then show ?case by (simp add: position_claims_def claims_added_refl)
next
  case (Cons idx rest)
  show ?case
  proof (cases "dict_get ci idx")
    case None
    from Cons.IH[OF Cons.prems, where i = "Suc i"] None show ?thesis
      by (simp add: position_claims_def)
  next
    case (Some sid)
    have "sid \<in> set (map fst s)" using dict_get_range[OF Some] Cons.prems(2) by auto
    from append_claim_added[OF Cons.prems(1) this, of "make_claim scores seg i"]
    obtain s1 where s1: "append_claim s sid (make_claim scores seg i) = Inr s1"
      and a1: "claims_added s s1 (\<lambda>k. if k = sid then [make_claim scores seg i] else [])"
      by auto
    have keys: "map fst s1 = map fst s" and ok1: "sources_ok s1"
      using a1 by (simp_all add: claims_added_def)
    have "\<exists>s'. indices_loop ci scores seg (Suc i) rest s1 = Inr s' \<and>
           claims_added s1 s' (position_claims (dict_get ci) scores seg (enumerate (Suc i) rest))"
      by (rule Cons.IH[OF ok1]) (use keys Cons.prems(2) in simp)
    then obtain s' where run: "indices_loop ci scores seg (Suc i) rest s1 = Inr s'"
      and a2: "claims_added s1 s' (position_claims (dict_get ci) scores seg (enumerate (Suc i) rest))"
      by auto
    have "(\<lambda>k. (if k = sid then [make_claim scores seg i] else []) @
             position_claims (dict_get ci) scores seg (enumerate (Suc i) rest) k) =
          position_claims (dict_get ci) scores seg (enumerate i (idx # rest))"
      using Some by (auto simp: position_claims_def fun_eq_iff)
    with claims_added_trans[OF a1 a2] run s1 Some show ?thesis by simp
  qed
qed

lemma support_claims_eq:
  "support_claims look support =
     position_claims look (or_empty (confidence_scores support)) (segment support)
       (enumerate 0 (or_empty (grounding_chunk_indices support)))"
  by (simp add: fun_eq_iff support_claims_def)

lemma supports_loop_added:
  assumes "sources_ok s" and "set (map snd ci) \<subseteq> set (map fst s)"
  shows "\<exists>s'. supports_loop ci sups s = Inr s' \<and>
           claims_added s s' (\<lambda>k. concat (map (\<lambda>sup. support_claims (dict_get ci) sup k) sups))"
  using assms
proof (induction sups arbitrary: s)
  case Nil
  then show ?case by (simp add: claims_added_refl)
next
  case (Cons sup rest)
  from indices_loop_added[OF Cons.prems, where scores = "or_empty (confidence_scores sup)"
      and seg = "segment sup" and i = 0 and idxs = "or_empty (grounding_chunk_indices sup)"]
  obtain s1 where s1: "support_body ci sup s = Inr s1"
    and a1: "claims_added s s1 (support_claims (dict_get ci) sup)"
    by (auto simp: support_body_def support_claims_eq)
  have keys: "map fst s1 = map fst s" and ok1: "sources_ok s1"
    using a1 by (simp_all add: claims_added_def)
  have "\<exists>s'. supports_loop ci rest s1 = Inr s' \<and>
           claims_added s1 s' (\<lambda>k. concat (map (\<lambda>sup. support_claims (dict_get ci) sup k) rest))"
    by (rule Cons.IH[OF ok1]) (use keys Cons.prems(2) in simp)
  then obtain s' where run: "supports_loop ci rest s1 = Inr s'"
    and a2: "claims_added s1 s' (\<lambda>k. concat (map (\<lambda>sup. support_claims (dict_get ci) sup k) rest))"
    by auto
  from claims_added_trans[OF a1 a2] run s1 show ?case by simp
qed

lemma first_seen_from_set: "set (first_seen_from seen xs) = set seen \<union> set xs"
  by (induction xs arbitrary: seen) auto

lemma first_seen_from_append:
  "first_seen_from seen (xs @ ys) = first_seen_from (first_seen_from seen xs) ys"
  by (induction xs arbitrary: seen) auto

lemma first_seen_from_known: "set xs \<subseteq> set seen \<Longrightarrow> first_seen_from seen xs = seen"
  by (induction xs arbitrary: seen) auto

lemma first_seen_from_distinct: "distinct seen \<Longrightarrow> distinct (first_seen_from seen xs)"
  by (induction xs arbitrary: seen) auto

lemma event_body_alt:
  "event_body ev r =
     (if event_chunks ev = [] then Inr r
      else (case chunks_loop 0 (event_chunks ev) (r, []) of
              Inl e \<Rightarrow> Inl e
            | Inr ((u, s, c), chunks_info) \<Rightarrow>
                (case supports_loop chunks_info (event_supports ev) s of
                   Inl e \<Rightarrow> Inl e
                 | Inr s' \<Rightarrow> Inr (u, s', c))))"
proof (cases "grounding_metadata ev")
  case None
  then show ?thesis by (simp add: event_body_def event_chunks_def)
next
  case (Some gm)
  have c: "event_chunks ev = or_empty (grounding_chunks gm)"
    and s: "event_supports ev = or_empty (grounding_supports gm)"
    using Some by (simp_all add: event_chunks_def event_supports_def)
  show ?thesis unfolding c s by (simp add: event_body_def Some)
qed

lemma event_claims_no_chunks: "event_chunks ev = [] \<Longrightarrow> event_claims u ev k = []"
  by (simp add: event_claims_def support_claims_def position_claims_def chunk_sid_Nil)

lemma dict_set_values: "set (map snd (dict_set d k v)) \<subseteq> insert v (set (map snd d))"
  by (induction d) (force split: if_splits)+

lemma chunks_loop_values:
  "registry_ok r \<Longrightarrow> chunks_loop idx chunks (r, ci) = Inr (r', ci') \<Longrightarrow>
     set (map snd ci') \<subseteq> set (map snd ci) \<union> set (map snd (fst r'))"
proof (induction chunks arbitrary: idx r ci)
  case Nil
  then show ?case by auto
next
  case (Cons chunk rest)
  show ?case
  proof (cases "web chunk")
    case None
    from Cons.IH[OF Cons.prems(1) Cons.prems(2)[unfolded chunks_loop_noweb[OF None]]]
    show ?thesis .
  next
    case (Some w)
    obtain sid where sid: "dict_get (fst (register_web w r)) (uri w) = Some sid"
      using register_web_get[OF Cons.prems(1)] by blast
    note run = Cons.prems(2)[unfolded chunks_loop_web[OF Some sid]]
    note ok' = register_web_ok[OF Cons.prems(1), of w]
    have "dict_get (fst r') (uri w) = Some sid"
      by (rule dict_get_prefix[OF conjunct1[OF chunks_loop_prefix[OF ok' run]] sid])
    then have "sid \<in> set (map snd (fst r'))" by (rule dict_get_range)
    with Cons.IH[OF ok' run] dict_set_values[of ci idx sid] show ?thesis by auto
  qed
qed

lemma claims_of_append_new:
  assumes "k0 \<notin> set (map fst s)" "src_supported_claims info = Some []"
  shows "claims_of (s @ [(k0, info)]) k = claims_of s k"
proof (cases "dict_get s k")
  case None
  then show ?thesis using assms by (simp add: claims_of_def dict_get_def map_add_def)
next
  case (Some a)
  then show ?thesis by (simp add: claims_of_def dict_get_def)
qed

lemma register_web_claims:
  assumes "registry_ok r"
  shows "claims_of (fst (snd (register_web w r))) k = claims_of (fst (snd r)) k"
proof (cases r)
  case (fields u s c)
  from assms[unfolded fields] show ?thesis unfolding fields
  proof (cases rule: register_web_cases[where w = w])
    case (known sid)
    then show "claims_of (fst (snd (register_web w (u, s, c)))) k = claims_of (fst (snd (u, s, c))) k"
      by simp
  next
    case (new info)
    have "''src-'' @ str_nat c \<notin> set (map fst s)"
      using assms[unfolded fields] short_id_fresh[of c] by (simp add: registry_ok_def)
    from claims_of_append_new[OF this new(3)] new(2)
    show "claims_of (fst (snd (register_web w (u, s, c)))) k = claims_of (fst (snd (u, s, c))) k"
      by simp
  qed
qed

lemma chunks_loop_claims:
  "registry_ok r \<Longrightarrow> chunks_loop idx chunks (r, ci) = Inr (r', ci') \<Longrightarrow>
     claims_of (fst (snd r')) k = claims_of (fst (snd r)) k"
proof (induction chunks arbitrary: idx r ci)
  case Nil
  then show ?case by auto
next
  case (Cons chunk rest)
  show ?case
  proof (cases "web chunk")
    case None
    from Cons.IH[OF Cons.prems(1) Cons.prems(2)[unfolded chunks_loop_noweb[OF None]]]
    show ?thesis .
  next
    case (Some w)
    obtain sid where sid: "dict_get (fst (register_web w r)) (uri w) = Some sid"
      using register_web_get[OF Cons.prems(1)] by blast
    note run = Cons.prems(2)[unfolded chunks_loop_web[OF Some sid]]
    note ok' = register_web_ok[OF Cons.prems(1), of w]
    from Cons.IH[OF ok' run] register_web_claims[OF Cons.prems(1), of w k]
    show ?thesis by simp
  qed
qed

lemma identity_of_prefix:
  "prefix s s' \<Longrightarrow> identity_of s k \<noteq> None \<Longrightarrow> identity_of s' k = identity_of s k"
  by (auto simp: identity_of_def dest: dict_get_prefix)

lemma grows_refl: "registry_ok r \<Longrightarrow> grows r r [] (\<lambda>k. [])"
  by (simp add: grows_def)

lemma event_body_grows:
  assumes ok: "registry_ok r"
  shows "\<exists>r'. event_body ev r = Inr r' \<and>
           grows r r' (event_urls ev) (event_claims (fst r') ev)"
proof (cases "event_chunks ev = []")
  case True
  then show ?thesis using ok
    by (simp add: event_body_alt grows_def event_urls_def event_claims_no_chunks)
next
  case False
  obtain r1 ci where run1: "chunks_loop 0 (event_chunks ev) (r, []) = Inr (r1, ci)"
    and ok1: "registry_ok r1"
    using chunks_loop_total[OF ok] by blast
  obtain u1 s1 c1 where r1: "r1 = (u1, s1, c1)" by (cases r1) auto
  have sok1: "sources_ok s1" and keys1: "map fst s1 = map snd u1"
    using ok1 by (simp_all add: r1 registry_ok_def sources_ok_def)
  have "set (map snd ci) \<subseteq> set (map fst s1)"
    using chunks_loop_values[OF ok run1] keys1 by (simp add: r1)
  from supports_loop_added[OF sok1 this, of "event_supports ev"]
  obtain s' where run2: "supports_loop ci (event_supports ev) s1 = Inr s'"
    and added: "claims_added s1 s'
       (\<lambda>k. concat (map (\<lambda>sup. support_claims (dict_get ci) sup k) (event_supports ev)))"
    by blast
  have look: "dict_get ci = chunk_sid u1 (event_chunks ev)"
    using chunks_loop_info0[OF ok run1] by (simp add: fun_eq_iff r1)
  have res: "event_body ev r = Inr (u1, s', c1)"
    using False run1 run2 by (simp add: event_body_alt r1)
  have ok': "registry_ok (u1, s', c1)"
    using ok1 added by (simp add: r1 registry_ok_def claims_added_def sources_ok_def)
  have pre: "prefix (fst r) u1" "prefix (fst (snd r)) s1"
    using chunks_loop_prefix[OF ok run1] by (simp_all add: r1)
  have urls: "map fst u1 = first_seen_from (map fst (fst r)) (event_urls ev)"
    using chunks_loop_urls[OF ok run1] by (simp add: r1 event_urls_def)
  have keys: "prefix (map fst (fst (snd r))) (map fst s')"
    using pre(2) added by (auto simp: claims_added_def prefix_def)
  have ident: "\<And>k. identity_of (fst (snd r)) k \<noteq> None \<Longrightarrow>
      identity_of s' k = identity_of (fst (snd r)) k"
    using identity_of_prefix[OF pre(2)] added by (simp add: claims_added_def)
  have claims: "\<And>k. claims_of s' k = claims_of (fst (snd r)) k @ event_claims u1 ev k"
    using chunks_loop_claims[OF ok run1] added
    by (simp add: claims_added_def r1 look event_claims_def)
  show ?thesis
    unfolding res grows_def using ok' pre(1) urls keys ident claims by simp
qed

lemma chunk_urls_mem:
  "i < length chunks \<Longrightarrow> web (chunks ! i) = Some w \<Longrightarrow> uri w \<in> set (chunk_urls chunks)"
proof (induction chunks arbitrary: i)
  case Nil
  then show ?case by simp
next
  case (Cons chunk rest)
  then show ?case by (cases i) (auto split: option.splits)
qed

lemma chunk_sid_mono:
  assumes "prefix u u'" "set (chunk_urls chunks) \<subseteq> set (map fst u)"
  shows "chunk_sid u' chunks idx = chunk_sid u chunks idx"
proof (cases "0 \<le> idx \<and> idx < int (length chunks)")
  case False
  then show ?thesis by (auto simp: chunk_sid_def)
next
  case True
  show ?thesis
  proof (cases "web (chunks ! nat idx)")
    case None
    then show ?thesis by (simp add: chunk_sid_def)
  next
    case (Some w)
    have "nat idx < length chunks" using True by (auto simp: nat_less_iff)
    from chunk_urls_mem[OF this Some] assms(2) have "uri w \<in> set (map fst u)" by auto
    then obtain sid where sid: "dict_get u (uri w) = Some sid"
      using dict_get_None_iff[of u "uri w"] by (cases "dict_get u (uri w)") auto
    from dict_get_prefix[OF assms(1) sid] sid Some True show ?thesis
      by (simp add: chunk_sid_def)
  qed
qed

lemma event_claims_mono:
  assumes "prefix u u'" "set (event_urls ev) \<subseteq> set (map fst u)"
  shows "event_claims u' ev k = event_claims u ev k"
proof -
  have "chunk_sid u' (event_chunks ev) = chunk_sid u (event_chunks ev)"
    using chunk_sid_mono[OF assms(1), of "event_chunks ev"] assms(2)
    by (simp add: fun_eq_iff event_urls_def)
  then show ?thesis by (simp add: event_claims_def)
qed

lemma grows_ok: "grows r r' urls d \<Longrightarrow> registry_ok r'"
  by (simp add: grows_def)

lemma grows_trans:
  assumes "grows r r1 urls1 d1" "grows r1 r2 urls2 d2"
  shows "grows r r2 (urls1 @ urls2) (\<lambda>k. d1 k @ d2 k)"
proof -
  have "prefix (fst r) (fst r2)" "prefix (map fst (fst (snd r))) (map fst (fst (snd r2)))"
    using assms by (auto simp: grows_def intro: prefix_order.trans)
  moreover have "map fst (fst r2) = first_seen_from (map fst (fst r)) (urls1 @ urls2)"
    using assms by (simp add: grows_def first_seen_from_append)
  moreover have "\<And>k. identity_of (fst (snd r)) k \<noteq> None \<Longrightarrow>
      identity_of (fst (snd r2)) k = identity_of (fst (snd r)) k"
    using assms by (simp add: grows_def)
  moreover have "\<And>k. claims_of (fst (snd r2)) k = claims_of (fst (snd r)) k @ d1 k @ d2 k"
    using assms by (simp add: grows_def)
  ultimately show ?thesis using assms(2) by (simp add: grows_def)
qed

lemma grows_knows: "grows r r' urls d \<Longrightarrow> set urls \<subseteq> set (map fst (fst r'))"
  using first_seen_from_set[of "map fst (fst r)" urls] by (simp add: grows_def)

lemma events_loop_grows:
  "registry_ok r \<Longrightarrow>
     \<exists>r'. events_loop evs r = Inr r' \<and>
       grows r r' (concat (map event_urls evs)) (events_claims (fst r') evs)"
proof (induction evs arbitrary: r)
  case Nil
  then show ?case by (simp add: grows_refl events_claims_def)
next
  case (Cons ev rest)
  obtain r1 where run1: "event_body ev r = Inr r1"
    and g1: "grows r r1 (event_urls ev) (event_claims (fst r1) ev)"
    using event_body_grows[OF Cons.prems] by blast
  obtain r' where run2: "events_loop rest r1 = Inr r'"
    and g2: "grows r1 r' (concat (map event_urls rest)) (events_claims (fst r') rest)"
    using Cons.IH[OF grows_ok[OF g1]] by blast
  have pre: "prefix (fst r1) (fst r')" using g2 by (simp add: grows_def)
  have "event_claims (fst r') ev = event_claims (fst r1) ev"
    using event_claims_mono[OF pre grows_knows[OF g1]] by (simp add: fun_eq_iff)
  then have "(\<lambda>k. event_claims (fst r1) ev k @ events_claims (fst r') rest k) =
      events_claims (fst r') (ev # rest)"
    by (simp add: events_claims_def fun_eq_iff)
  with grows_trans[OF g1 g2] run1 run2 show ?case by simp
qed

lemma callback_alt:
  "collect_research_sources_callback events st =
     (case events_loop events (registry_of st) of
        Inl e \<Rightarrow> Inl e
      | Inr (u', s', c') \<Rightarrow> Inr (st\<lparr>url_to_short_id := Some u', sources := Some s'\<rparr>))"
  by (simp add: collect_research_sources_callback_def registry_of_def get_url_to_short_id_def
      get_sources_def Let_def)

lemma state_ok_initial: "state_ok initial_state"
  by (simp add: state_ok_def registry_of_def get_url_to_short_id_def get_sources_def
      initial_state_def registry_ok_def)

lemma callback_grows:
  assumes "state_ok st"
  shows "\<exists>st'. collect_research_sources_callback evs st = Inr st' \<and>
           grows (registry_of st) (registry_of st') (concat (map event_urls evs))
             (events_claims (get_url_to_short_id st') evs)"
proof -
  obtain r' where run: "events_loop evs (registry_of st) = Inr r'"
    and g: "grows (registry_of st) r' (concat (map event_urls evs)) (events_claims (fst r') evs)"
    using events_loop_grows[OF assms[unfolded state_ok_def]] by blast
  obtain u' s' c' where r': "r' = (u', s', c')" by (cases r') auto
  have c': "c' = length u' + 1" using grows_ok[OF g] by (simp add: r' registry_ok_def)
  let ?st' = "st\<lparr>url_to_short_id := Some u', sources := Some s'\<rparr>"
  have reg: "registry_of ?st' = r'"
    by (simp add: registry_of_def get_url_to_short_id_def get_sources_def r' c')
  have "collect_research_sources_callback evs st = Inr ?st'"
    by (simp add: callback_alt run r')
  moreover have "get_url_to_short_id ?st' = fst r'"
    by (simp add: get_url_to_short_id_def r')
  ultimately show ?thesis using g reg by simp
qed

lemma run_callbacks_grows:
  "state_ok st \<Longrightarrow>
     \<exists>st' delta. run_callbacks invs st = Inr st' \<and>
       grows (registry_of st) (registry_of st') (concat (map event_urls (concat invs))) delta"
proof (induction invs arbitrary: st)
  case Nil
  then show ?case using grows_refl[of "registry_of st"] by (auto simp: state_ok_def)
next
  case (Cons evs rest)
  obtain st1 where run1: "collect_research_sources_callback evs st = Inr st1"
    and g1: "grows (registry_of st) (registry_of st1) (concat (map event_urls evs))
             (events_claims (get_url_to_short_id st1) evs)"
    using callback_grows[OF Cons.prems] by blast
  have "state_ok st1" using grows_ok[OF g1] by (simp add: state_ok_def)
  from Cons.IH[OF this] obtain st' delta where run2: "run_callbacks rest st1 = Inr st'"
    and g2: "grows (registry_of st1) (registry_of st') (concat (map event_urls (concat rest))) delta"
    by blast
  from grows_trans[OF g1 g2] run1 run2 show ?case by auto
qed

lemma distinct_short_ids: "distinct xs \<Longrightarrow> distinct (map (\<lambda>n. ''src-'' @ str_nat n) xs)"
  by (simp add: distinct_map inj_on_def str_nat_inj)

lemma prefix_same_keys:
  assumes "prefix u u'" "map fst u' = map fst u"
  shows "u' = u"
proof -
  from assms(1) obtain e where e: "u' = u @ e" by (auto simp: prefix_def)
  from assms(2) have "length u' = length u" by (metis length_map)
  with e show ?thesis by simp
qed

lemma identity_of_absent: "k \<notin> set (map fst s) \<Longrightarrow> identity_of s k = None"
  using dict_get_None_iff[of s k] by (simp add: identity_of_def)

lemma identity_of_present: "k \<in> set (map fst s) \<Longrightarrow> identity_of s k \<noteq> None"
  using dict_get_None_iff[of s k] by (simp add: identity_of_def)

lemma str_nat_1: "str_nat (Suc 0) = ''1''"
  by (simp add: str_nat.simps digit_char_def)

lemma example_first:
  "collect_research_sources_callback [example_event] initial_state =
     Inr (initial_state\<lparr>url_to_short_id := Some [(''https://a.com'', ''src-1'')],
            sources := Some [(''src-1'',
              example_source [\<lparr>text_segment = ''claim text'', confidence = 0.9\<rparr>])]\<rparr>)"
  by (simp add: collect_research_sources_callback_def initial_state_def example_event_def
      event_body_def register_web_def dict_get_def str_nat_1 support_body_def append_claim_def
      make_claim_def example_source_def Let_def)

lemma registry_ok_keys: "registry_ok (u, s, c) \<Longrightarrow> map fst s = map snd u"
  by (simp add: registry_ok_def)

lemma example_chunks_loop:
  "chunks_loop 0 example_chunks (([], [], 1), []) =
     Inr (([(''https://a.com'', ''src-1'')], [(''src-1'', example_source [])], 2),
          [(0, ''src-1'')])"
  by (simp add: example_chunks_def register_web_def dict_get_def str_nat_1 example_source_def
      Let_def)

text \<open>
  After the loop over the chunks of an event, every source has a claim list and every
  short id of the chunk map is a source: the loop over the supports starts in a state
  in which no append can fail.
\<close>

lemma supports_ready:
  assumes "registry_ok r" and "chunks_loop 0 chunks (r, []) = Inr ((u, s, c), ci)"
  shows "sources_ok s \<and> set (map snd ci) \<subseteq> set (map fst s)"
proof -
  obtain r' ci' where "chunks_loop 0 chunks (r, []) = Inr (r', ci')" and "registry_ok r'"
    using chunks_loop_total[OF assms(1)] by blast
  then have ok: "registry_ok (u, s, c)" using assms(2) by simp
  have "set (map snd ci) \<subseteq> set (map fst s)"
    using chunks_loop_values[OF assms] by (simp add: registry_ok_keys[OF ok])
  moreover have "sources_ok s" using ok by (simp add: registry_ok_def sources_ok_def)
  ultimately show ?thesis by simp
qed

text \<open>A chunk index without a source adds no claim at its position.\<close>

lemma absent_position_claims:
  assumes "look idx = None"
  shows "position_claims look scores seg (enumerate 0 (pre @ idx # post)) sid =
     map (\<lambda>(i, chunk_idx). make_claim scores seg i)
       (filter (\<lambda>(i, chunk_idx). look chunk_idx = Some sid)
          (enumerate 0 pre @ enumerate (Suc (length pre)) post))"
  using assms by (simp add: position_claims_def enumerate_append_eq)

lemma absent_chunk_sid:
  assumes "idx < 0 \<or> int (length chunks) \<le> idx \<or> web (chunks ! nat idx) = None"
  shows "chunk_sid u chunks idx = None"
  using assms by (auto simp: chunk_sid_def)

section \<open>Facts about the loop\<close>

lemma checker_signal:
  "list_ex signals_escalate (escalation_checker name st) = graded_pass st"
proof -
  have "(case research_evaluation st of None \<Rightarrow> False
         | Some fb \<Rightarrow> fb \<noteq> empty_feedback \<and> grade fb = Some ''pass'') \<longleftrightarrow> graded_pass st"
    by (cases "research_evaluation st") (auto simp: empty_feedback_def graded_pass_def)
  then show ?thesis
    by (simp add: escalation_checker_def signals_escalate_def)
qed

lemma one_iteration:
  "run_sub_stages
     [llm_stage ''research_evaluator'' evaluator, checker_stage,
      llm_stage ''enhanced_search_executor'' refiner] st =
   (case evaluator st of
      Inl f \<Rightarrow> Inl f
    | Inr st2 \<Rightarrow>
        (if graded_pass st2
         then Inr (st2, [''research_evaluator'', ''escalation_checker''], True)
         else (case refiner st2 of
                 Inl f \<Rightarrow> Inl f
               | Inr st3 \<Rightarrow> Inr (st3, full_iteration, False))))"
  by (simp add: llm_stage_def checker_stage_def checker_signal full_iteration_def
      split: sum.splits)

lemma bounded_loop_add:
  "bounded_loop k stages st = Inr (st1, tr, Exhausted) \<Longrightarrow>
     bounded_loop (k + m) stages st =
       (case bounded_loop m stages st1 of
          Inl f \<Rightarrow> Inl f
        | Inr (st', tr', e) \<Rightarrow> Inr (st', tr @ tr', e))"
proof (induction k arbitrary: st tr)
  case 0
  then show ?case by (auto split: sum.splits)
next
  case (Suc k)
  from Suc.prems obtain sa na sb nb where
    it: "run_sub_stages stages st = Inr (sa, na, False)" and
    rest: "bounded_loop k stages sa = Inr (st1, nb, Exhausted)" and
    eqs: "tr = na @ nb"
    by (auto split: sum.splits if_splits prod.splits)
  from Suc.IH[OF rest] it eqs show ?case
    by (auto split: sum.splits)
qed

lemma loop_Suc:
  "iterative_refinement_loop (Suc n) evaluator refiner st =
     (case evaluator st of
        Inl f \<Rightarrow> Inl f
      | Inr st2 \<Rightarrow>
          (if graded_pass st2
           then Inr (st2, [''research_evaluator'', ''escalation_checker''], Escalated)
           else (case refiner st2 of
                   Inl f \<Rightarrow> Inl f
                 | Inr st3 \<Rightarrow>
                     (case iterative_refinement_loop n evaluator refiner st3 of
                        Inl f \<Rightarrow> Inl f
                      | Inr (st'', names', e) \<Rightarrow> Inr (st'', full_iteration @ names', e)))))"
  unfolding iterative_refinement_loop_def bounded_loop.simps one_iteration
  by (simp split: sum.splits)

lemma loop_0: "iterative_refinement_loop 0 evaluator refiner st = Inr (st, [], Exhausted)"
  by (simp add: iterative_refinement_loop_def)

lemma loop_never_pass:
  assumes ev: "\<forall>s. \<exists>s'. evaluator s = Inr s' \<and> \<not> graded_pass s'"
    and rf: "\<forall>s. \<exists>s'. refiner s = Inr s'"
  shows "\<exists>st'. iterative_refinement_loop N evaluator refiner st =
            Inr (st', concat (replicate N full_iteration), Exhausted)"
proof (induction N arbitrary: st)
  case 0
  show ?case by (simp add: loop_0)
next
  case (Suc N)
  from ev obtain st2 where e: "evaluator st = Inr st2" "\<not> graded_pass st2" by blast
  from rf obtain st3 where r: "refiner st2 = Inr st3" by blast
  from Suc[of st3] obtain st' where
    "iterative_refinement_loop N evaluator refiner st3 =
       Inr (st', concat (replicate N full_iteration), Exhausted)" by blast
  then show ?case by (simp add: loop_Suc e r)
qed

lemma loop_exhausted_trace:
  "iterative_refinement_loop k evaluator refiner st = Inr (st1, tr, Exhausted) \<Longrightarrow>
     tr = concat (replicate k full_iteration)"
proof (induction k arbitrary: st tr)
  case 0
  then show ?case by (simp add: loop_0)
next
  case (Suc k)
  from Suc.prems obtain st2 st3 tr' where
    "iterative_refinement_loop k evaluator refiner st3 = Inr (st1, tr', Exhausted)"
    and "tr = full_iteration @ tr'"
    by (auto simp: loop_Suc split: sum.splits if_splits)
  with Suc.IH show ?case by simp
qed

lemma loop_pass_at:
  assumes "1 \<le> i" "i \<le> N"
    and first: "iterative_refinement_loop (i - 1) evaluator refiner st = Inr (st1, tr, Exhausted)"
    and e: "evaluator st1 = Inr st2" and p: "graded_pass st2"
  shows "iterative_refinement_loop N evaluator refiner st =
           Inr (st2, concat (replicate (i - 1) full_iteration) @
                  [''research_evaluator'', ''escalation_checker''], Escalated)"
proof -
  define m where "m = N - i"
  have N: "N = (i - 1) + Suc m"
    using assms(1,2) by (simp add: m_def)
  have tr: "tr = concat (replicate (i - 1) full_iteration)"
    by (rule loop_exhausted_trace[OF first])
  have "iterative_refinement_loop (Suc m) evaluator refiner st1 =
      Inr (st2, [''research_evaluator'', ''escalation_checker''], Escalated)"
    by (simp add: loop_Suc e p)
  with bounded_loop_add[OF first[unfolded iterative_refinement_loop_def], of "Suc m"]
  show ?thesis unfolding N tr iterative_refinement_loop_def by simp
qed

section \<open>Facts about the matcher\<close>

lemma match_at_triples:
  "match_at before grp after s =
     (case triples before grp after s of
        [] \<Rightarrow> None
      | (r1, r2, r3) # _ \<Rightarrow>
          Some (take (length s - length r3) s, take (length r1 - length r2) r1, r3))"
  by (simp add: match_at_def triples_def)

lemma star_alts_blocked:
  "\<not> p c \<Longrightarrow> star_alts p (a @ c # b) = map (\<lambda>r. r @ c # b) (star_alts p a)"
  by (induction a) auto

lemma alts_blocked:
  assumes "\<not> p c"
  shows "alts (q, p) (a @ c # b) = map (\<lambda>r. r @ c # b) (alts (q, p) a)"
proof (cases a)
  case Nil
  then show ?thesis using assms by (cases q) auto
next
  case (Cons x xs)
  then show ?thesis using assms star_alts_blocked[where p = p and c = c and a = "x # xs" and b = b]
      star_alts_blocked[where p = p and c = c and a = xs and b = b]
    by (cases q) auto
qed

lemma match_seq_blocked:
  "rejects c its \<Longrightarrow> match_seq its (a @ c # b) = map (\<lambda>r. r @ c # b) (match_seq its a)"
proof (induction its arbitrary: a)
  case Nil
  then show ?case by simp
next
  case (Cons it its)
  obtain q p where it: "it = (q, p)" by (cases it) auto
  from Cons.prems have np: "\<not> p c" and rest: "rejects c its" by (simp_all add: rejects_def it)
  have "match_seq (it # its) (a @ c # b) =
      concat (map (\<lambda>r. match_seq its (r @ c # b)) (alts (q, p) a))"
    using alts_blocked[where p = p and c = c and q = q and a = a and b = b] np
    by (simp add: it comp_def)
  also have "\<dots> = concat (map (\<lambda>r. map (\<lambda>r'. r' @ c # b) (match_seq its r)) (alts (q, p) a))"
    by (simp add: Cons.IH[OF rest])
  also have "\<dots> = map (\<lambda>r'. r' @ c # b) (match_seq (it # its) a)"
    by (simp add: it map_concat comp_def)
  finally show ?case .
qed

lemma triples_blocked:
  assumes "rejects c before" "rejects c grp" "rejects c after"
  shows "triples before grp after (a @ c # b) =
     map (\<lambda>(r1, r2, r3). (r1 @ c # b, r2 @ c # b, r3 @ c # b)) (triples before grp after a)"
  by (simp add: triples_def match_seq_blocked[OF assms(1)] match_seq_blocked[OF assms(2)]
      match_seq_blocked[OF assms(3)] map_concat comp_def)

lemma triples_suffix:
  assumes "(r1, r2, r3) \<in> set (triples before grp after s)"
  shows "suffix r1 s \<and> suffix r2 r1 \<and> suffix r3 r2"
  using assms match_seq_suffix by (fastforce simp: triples_def)

lemma triples_one:
  "triples ((Q_one, p0) # before) grp after (x # s) =
     (if p0 x then triples before grp after s else [])"
  by (simp add: triples_def)

lemma take_suffix_append:
  assumes "suffix r s"
  shows "take (length (s @ t) - length (r @ t)) (s @ t) = take (length s - length r) s"
proof -
  from assms obtain w where "s = w @ r" by (auto simp: suffix_def)
  then show ?thesis by simp
qed

lemma cite_match_alt:
  "cite_match s = match_at ((Q_one, \<lambda>x. x = CHR ''<'') # cite_before) cite_group cite_after s"
  by (simp add: cite_match_def cite_before_def cite_group_def cite_after_def lit_def)

lemma cite_rejects:
  "rejects CHR ''<'' cite_before" "rejects CHR ''<'' cite_group" "rejects CHR ''<'' cite_after"
  by (simp_all add: rejects_def cite_before_def cite_group_def cite_after_def lit_def
      is_space_def is_digit_def is_quote_def dquote_def squote_def)

lemma match_at_blocked:
  assumes "rejects c before" "rejects c grp" "rejects c after"
  shows "match_at ((Q_one, p0) # before) grp after (x # a @ c # b) =
     map_option (\<lambda>(w, g, r). (w, g, r @ c # b)) (match_at ((Q_one, p0) # before) grp after (x # a))"
proof (cases "p0 x")
  case False
  then show ?thesis by (simp add: match_at_triples triples_one)
next
  case True
  show ?thesis
  proof (cases "triples before grp after a")
    case Nil
    then show ?thesis using True
      by (simp add: match_at_triples triples_one triples_blocked[OF assms])
  next
    case (Cons t ts)
    obtain r1 r2 r3 where t: "t = (r1, r2, r3)" by (cases t) auto
    have "(r1, r2, r3) \<in> set (triples before grp after a)" by (simp add: Cons t)
    from triples_suffix[OF this] have s1: "suffix r1 a" and s2: "suffix r2 r1"
      and s3: "suffix r3 r2" by simp_all
    have s31: "suffix r3 (x # a)"
      using s1 s2 s3 by (meson suffix_Cons suffix_order.trans)
    have w: "take (length ((x # a) @ c # b) - length (r3 @ c # b)) ((x # a) @ c # b) =
        take (length (x # a) - length r3) (x # a)"
      by (rule take_suffix_append[OF s31])
    have g: "take (length (r1 @ c # b) - length (r2 @ c # b)) (r1 @ c # b) =
        take (length r1 - length r2) r1"
      by (rule take_suffix_append[OF s2])
    have l: "match_at ((Q_one, p0) # before) grp after ((x # a) @ c # b) =
        Some (take (length ((x # a) @ c # b) - length (r3 @ c # b)) ((x # a) @ c # b),
              take (length (r1 @ c # b) - length (r2 @ c # b)) (r1 @ c # b), r3 @ c # b)"
      using True by (simp add: match_at_triples triples_one triples_blocked[OF assms] Cons t)
    have r: "match_at ((Q_one, p0) # before) grp after (x # a) =
        Some (take (length (x # a) - length r3) (x # a), take (length r1 - length r2) r1, r3)"
      using True by (simp add: match_at_triples triples_one Cons t)
    show ?thesis using l unfolding w g r by simp
  qed
qed

lemma cite_match_blocked:
  "cite_match (x # a @ CHR ''<'' # b) =
     map_option (\<lambda>(w, g, r). (w, g, r @ CHR ''<'' # b)) (cite_match (x # a))"
  unfolding cite_match_alt by (rule match_at_blocked[OF cite_rejects])

text \<open>The matcher accepts exactly the texts of \<open>accepted_marker\<close>.\<close>

lemma set_star_alts: "set (star_alts p s) = {r. \<exists>xs. s = xs @ r \<and> list_all p xs}"
proof (induction s)
  case Nil
  show ?case by auto
next
  case (Cons c cs)
  show ?case
  proof (cases "p c")
    case True
    have "{r. \<exists>xs. c # cs = xs @ r \<and> list_all p xs} =
        insert (c # cs) {r. \<exists>xs. cs = xs @ r \<and> list_all p xs}"
    proof (intro set_eqI iffI)
      fix r assume "r \<in> {r. \<exists>xs. c # cs = xs @ r \<and> list_all p xs}"
      then obtain xs where xs: "c # cs = xs @ r" "list_all p xs" by blast
      show "r \<in> insert (c # cs) {r. \<exists>xs. cs = xs @ r \<and> list_all p xs}"
      proof (cases xs)
        case Nil
        then show ?thesis using xs by simp
      next
        case (Cons y ys)
        then have "cs = ys @ r" "list_all p ys" using xs by simp_all
        then show ?thesis by blast
      qed
    next
      fix r assume "r \<in> insert (c # cs) {r. \<exists>xs. cs = xs @ r \<and> list_all p xs}"
      then consider "r = c # cs" | xs where "cs = xs @ r" "list_all p xs" by blast
      then show "r \<in> {r. \<exists>xs. c # cs = xs @ r \<and> list_all p xs}"
      proof cases
        case 1
        then have "c # cs = [] @ r \<and> list_all p []" by simp
        then show ?thesis by blast
      next
        case 2
        then have "c # cs = (c # xs) @ r \<and> list_all p (c # xs)" using True by simp
        then show ?thesis by blast
      qed
    qed
    then show ?thesis using True Cons by auto
  next
    case False
    have "{r. \<exists>xs. c # cs = xs @ r \<and> list_all p xs} = {c # cs}"
    proof (intro set_eqI iffI)
      fix r assume "r \<in> {r. \<exists>xs. c # cs = xs @ r \<and> list_all p xs}"
      then obtain xs where xs: "c # cs = xs @ r" "list_all p xs" by blast
      then have "xs = []" using False by (cases xs) auto
      then show "r \<in> {c # cs}" using xs by simp
    next
      fix r assume "r \<in> {c # cs}"
      then have "c # cs = [] @ r \<and> list_all p []" by simp
      then show "r \<in> {r. \<exists>xs. c # cs = xs @ r \<and> list_all p xs}" by blast
    qed
    then show ?thesis using False by simp
  qed
qed

lemma in_alts_one: "r \<in> set (alts (Q_one, p) s) \<longleftrightarrow> (\<exists>c. s = c # r \<and> p c)"
  by (cases s) auto

lemma in_alts_opt: "r \<in> set (alts (Q_opt, p) s) \<longleftrightarrow> r = s \<or> (\<exists>c. s = c # r \<and> p c)"
  by (cases s) auto

lemma in_alts_star: "r \<in> set (alts (Q_star, p) s) \<longleftrightarrow> (\<exists>xs. s = xs @ r \<and> list_all p xs)"
proof -
  have "alts (Q_star, p) s = star_alts p s" by (cases s) auto
  then show ?thesis by (simp add: set_star_alts)
qed

lemma in_alts_plus:
  "r \<in> set (alts (Q_plus, p) s) \<longleftrightarrow> (\<exists>xs. xs \<noteq> [] \<and> s = xs @ r \<and> list_all p xs)"
proof (cases s)
  case Nil
  then show ?thesis by auto
next
  case (Cons c cs)
  show ?thesis
  proof
    assume "r \<in> set (alts (Q_plus, p) s)"
    then have pc: "p c" and "r \<in> set (star_alts p cs)"
      using Cons by (auto split: if_splits)
    then obtain xs where "cs = xs @ r" "list_all p xs" by (auto simp: set_star_alts)
    then have "c # xs \<noteq> [] \<and> s = (c # xs) @ r \<and> list_all p (c # xs)"
      using pc Cons by simp
    then show "\<exists>xs. xs \<noteq> [] \<and> s = xs @ r \<and> list_all p xs" by blast
  next
    assume "\<exists>xs. xs \<noteq> [] \<and> s = xs @ r \<and> list_all p xs"
    then obtain x xs where "s = (x # xs) @ r" "list_all p (x # xs)"
      by (metis list.exhaust)
    then have "p c" "cs = xs @ r" "list_all p xs" using Cons by simp_all
    then show "r \<in> set (alts (Q_plus, p) s)"
      using Cons by (auto simp: set_star_alts)
  qed
qed

lemma in_match_seq_Cons:
  "r \<in> set (match_seq (it # its) s) \<longleftrightarrow> (\<exists>a. a \<in> set (alts it s) \<and> r \<in> set (match_seq its a))"
  by auto

lemma in_match_seq_append:
  "r \<in> set (match_seq (its1 @ its2) s) \<longleftrightarrow>
     (\<exists>a. a \<in> set (match_seq its1 s) \<and> r \<in> set (match_seq its2 a))"
proof (induction its1 arbitrary: s)
  case Nil
  show ?case by simp
next
  case (Cons it its1)
  show ?case unfolding append_Cons in_match_seq_Cons Cons.IH by blast
qed

lemma in_match_seq_lit: "r \<in> set (match_seq (lit w) s) \<longleftrightarrow> s = w @ r"
proof (induction w arbitrary: s)
  case Nil
  show ?case by (auto simp: lit_def)
next
  case (Cons c w)
  have "lit (c # w) = (Q_one, \<lambda>x. x = c) # lit w" by (simp add: lit_def)
  then show ?case using Cons[of "tl s"] by (cases s) (auto simp: in_alts_one)
qed

lemma in_triples:
  "(r1, r2, r3) \<in> set (triples before grp after s) \<longleftrightarrow>
     r1 \<in> set (match_seq before s) \<and> r2 \<in> set (match_seq grp r1) \<and>
     r3 \<in> set (match_seq after r2)"
  by (auto simp: triples_def)

lemma in_match_seq_single:
  "r \<in> set (match_seq [it] s) \<longleftrightarrow> r \<in> set (alts it s)"
  by simp

lemma in_alts_opt_quote:
  "r \<in> set (alts (Q_opt, is_quote) s) \<longleftrightarrow> (\<exists>q. s = q @ r \<and> opt_quote q)"
proof
  assume "r \<in> set (alts (Q_opt, is_quote) s)"
  then consider "s = [] @ r" | c where "s = [c] @ r" "is_quote c"
    by (auto simp: in_alts_opt)
  then show "\<exists>q. s = q @ r \<and> opt_quote q"
  proof cases
    case 1
    then have "s = [] @ r \<and> opt_quote []" by (simp add: opt_quote_def)
    then show ?thesis by blast
  next
    case 2
    then have "s = [c] @ r \<and> opt_quote [c]" by (auto simp: opt_quote_def is_quote_def)
    then show ?thesis by blast
  qed
next
  assume "\<exists>q. s = q @ r \<and> opt_quote q"
  then obtain q where "s = q @ r" "opt_quote q" by blast
  then show "r \<in> set (alts (Q_opt, is_quote) s)"
    by (auto simp: in_alts_opt opt_quote_def is_quote_def)
qed

lemma in_tail_items:
  "r \<in> set (match_seq [(Q_star, is_space), (Q_opt, is_quote), (Q_star, is_space)] s) \<longleftrightarrow>
     (\<exists>w q v. s = w @ q @ v @ r \<and> spaces w \<and> opt_quote q \<and> spaces v)"
proof -
  have "r \<in> set (match_seq [(Q_star, is_space), (Q_opt, is_quote), (Q_star, is_space)] s) \<longleftrightarrow>
      (\<exists>a. a \<in> set (alts (Q_star, is_space) s) \<and>
        (\<exists>b. b \<in> set (alts (Q_opt, is_quote) a) \<and> r \<in> set (alts (Q_star, is_space) b)))"
    by auto
  also have "\<dots> \<longleftrightarrow> (\<exists>a. (\<exists>w. s = w @ a \<and> spaces w) \<and>
        (\<exists>b. (\<exists>q. a = q @ b \<and> opt_quote q) \<and> (\<exists>v. b = v @ r \<and> spaces v)))"
    unfolding in_alts_star in_alts_opt_quote spaces_def ..
  also have "\<dots> \<longleftrightarrow> (\<exists>w q v. s = w @ q @ v @ r \<and> spaces w \<and> opt_quote q \<and> spaces v)"
    by blast
  finally show ?thesis .
qed

lemma in_cite_before:
  "r \<in> set (match_seq (lit ''<cite'' @ [(Q_plus, is_space)] @ lit ''source'' @
        [(Q_star, is_space)] @ lit ''='' @
        [(Q_star, is_space), (Q_opt, is_quote), (Q_star, is_space)]) s) \<longleftrightarrow>
     (\<exists>w1 w2 w3 q1 w4.
        s = ''<cite'' @ w1 @ ''source'' @ w2 @ ''='' @ w3 @ q1 @ w4 @ r \<and>
        w1 \<noteq> [] \<and> spaces w1 \<and> spaces w2 \<and> spaces w3 \<and> opt_quote q1 \<and> spaces w4)"
  (is "r \<in> set (match_seq ?A s) \<longleftrightarrow> ?shape")
proof
  let ?T = "[(Q_star, is_space), (Q_opt, is_quote), (Q_star, is_space)]"
  let ?E = "lit ''='' @ ?T"
  let ?D = "[(Q_star, is_space)] @ ?E"
  let ?C = "lit ''source'' @ ?D"
  let ?B = "[(Q_plus, is_space)] @ ?C"
  assume "r \<in> set (match_seq ?A s)"
  then obtain a where a: "s = ''<cite'' @ a" "r \<in> set (match_seq ?B a)"
    unfolding in_match_seq_append[of r "lit ''<cite''" ?B] in_match_seq_lit by blast
  from a(2) obtain w1 b where b: "a = w1 @ b" "w1 \<noteq> []" "spaces w1"
      "r \<in> set (match_seq ?C b)"
    unfolding in_match_seq_append[of r "[(Q_plus, is_space)]" ?C] in_match_seq_single
      in_alts_plus spaces_def by blast
  from b(4) obtain c where c: "b = ''source'' @ c" "r \<in> set (match_seq ?D c)"
    unfolding in_match_seq_append[of r "lit ''source''" ?D] in_match_seq_lit by blast
  from c(2) obtain w2 d where d: "c = w2 @ d" "spaces w2" "r \<in> set (match_seq ?E d)"
    unfolding in_match_seq_append[of r "[(Q_star, is_space)]" ?E] in_match_seq_single
      in_alts_star spaces_def by blast
  from d(3) obtain e where e: "d = ''='' @ e" "r \<in> set (match_seq ?T e)"
    unfolding in_match_seq_append[of r "lit ''=''" ?T] in_match_seq_lit by blast
  from e(2) obtain w3 q1 w4 where t: "e = w3 @ q1 @ w4 @ r" "spaces w3" "opt_quote q1"
      "spaces w4"
    unfolding in_tail_items by blast
  have "s = ''<cite'' @ w1 @ ''source'' @ w2 @ ''='' @ w3 @ q1 @ w4 @ r"
    unfolding a(1) b(1) c(1) d(1) e(1) t(1) by simp
  with b(2,3) d(2) t(2,3,4) show ?shape by blast
next
  let ?T = "[(Q_star, is_space), (Q_opt, is_quote), (Q_star, is_space)]"
  let ?E = "lit ''='' @ ?T"
  let ?D = "[(Q_star, is_space)] @ ?E"
  let ?C = "lit ''source'' @ ?D"
  let ?B = "[(Q_plus, is_space)] @ ?C"
  assume ?shape
  then obtain w1 w2 w3 q1 w4 where
    s: "s = ''<cite'' @ w1 @ ''source'' @ w2 @ ''='' @ w3 @ q1 @ w4 @ r"
    and h: "w1 \<noteq> []" "spaces w1" "spaces w2" "spaces w3" "opt_quote q1" "spaces w4"
    by blast
  have t: "r \<in> set (match_seq ?T (w3 @ q1 @ w4 @ r))"
    unfolding in_tail_items using h(4,5,6) by blast
  have e: "r \<in> set (match_seq ?E (''='' @ w3 @ q1 @ w4 @ r))"
    unfolding in_match_seq_append[of r "lit ''=''" ?T] in_match_seq_lit using t by blast
  have d: "r \<in> set (match_seq ?D (w2 @ ''='' @ w3 @ q1 @ w4 @ r))"
    unfolding in_match_seq_append[of r "[(Q_star, is_space)]" ?E] in_match_seq_single
      in_alts_star using e h(3) unfolding spaces_def by blast
  have c: "r \<in> set (match_seq ?C (''source'' @ w2 @ ''='' @ w3 @ q1 @ w4 @ r))"
    unfolding in_match_seq_append[of r "lit ''source''" ?D] in_match_seq_lit using d by blast
  have b: "r \<in> set (match_seq ?B (w1 @ ''source'' @ w2 @ ''='' @ w3 @ q1 @ w4 @ r))"
    unfolding in_match_seq_append[of r "[(Q_plus, is_space)]" ?C] in_match_seq_single
      in_alts_plus using c h(1,2) unfolding spaces_def by blast
  show "r \<in> set (match_seq ?A s)"
    unfolding s in_match_seq_append[of r "lit ''<cite''" ?B] in_match_seq_lit using b by blast
qed

lemma in_cite_group:
  "r \<in> set (match_seq (lit ''src-'' @ [(Q_plus, is_digit)]) s) \<longleftrightarrow>
     (\<exists>ds. s = ''src-'' @ ds @ r \<and> ds \<noteq> [] \<and> list_all is_digit ds)"
  unfolding in_match_seq_append in_match_seq_lit in_match_seq_single in_alts_plus by blast

lemma in_cite_after:
  "r \<in> set (match_seq ([(Q_star, is_space), (Q_opt, is_quote), (Q_star, is_space)] @
        lit ''/>'') s) \<longleftrightarrow>
     (\<exists>w5 q2 w6. s = w5 @ q2 @ w6 @ ''/>'' @ r \<and> spaces w5 \<and> opt_quote q2 \<and> spaces w6)"
  unfolding in_match_seq_append in_match_seq_lit in_tail_items by blast


lemma cite_match_sound:
  assumes "cite_match s = Some (m, sid, rest)"
  shows "s = m @ rest \<and> accepted_marker m sid"
proof -
  from match_at_SomeD[OF assms[unfolded cite_match_def]] obtain r1 r2 where
    r1: "r1 \<in> set (match_seq (lit ''<cite'' @ [(Q_plus, is_space)] @ lit ''source'' @
        [(Q_star, is_space)] @ lit ''='' @
        [(Q_star, is_space), (Q_opt, is_quote), (Q_star, is_space)]) s)"
    and r2: "r2 \<in> set (match_seq (lit ''src-'' @ [(Q_plus, is_digit)]) r1)"
    and r3: "rest \<in> set (match_seq ([(Q_star, is_space), (Q_opt, is_quote),
        (Q_star, is_space)] @ lit ''/>'') r2)"
    and m: "m = take (length s - length rest) s"
    and g: "sid = take (length r1 - length r2) r1"
    by blast
  from r1 obtain w1 w2 w3 q1 w4 where
    s: "s = ''<cite'' @ w1 @ ''source'' @ w2 @ ''='' @ w3 @ q1 @ w4 @ r1"
    and h1: "w1 \<noteq> []" "spaces w1" "spaces w2" "spaces w3" "opt_quote q1" "spaces w4"
    unfolding in_cite_before by blast
  from r2 obtain ds where e1: "r1 = ''src-'' @ ds @ r2" and h2: "ds \<noteq> []" "list_all is_digit ds"
    unfolding in_cite_group by blast
  from r3 obtain w5 q2 w6 where e2: "r2 = w5 @ q2 @ w6 @ ''/>'' @ rest"
    and h3: "spaces w5" "opt_quote q2" "spaces w6"
    unfolding in_cite_after by blast
  define g0 where "g0 = ''src-'' @ ds"
  have "r1 = g0 @ r2" unfolding g0_def e1 by simp
  then have "sid = g0" unfolding g by simp
  then have sid: "sid = ''src-'' @ ds" unfolding g0_def .
  define m0 where "m0 = ''<cite'' @ w1 @ ''source'' @ w2 @ ''='' @ w3 @ q1 @ w4 @ ''src-'' @ ds @
      w5 @ q2 @ w6 @ ''/>''"
  have sm: "s = m0 @ rest" unfolding m0_def s e1 e2 by simp
  then have "m = m0" unfolding m by simp
  then have m': "m = ''<cite'' @ w1 @ ''source'' @ w2 @ ''='' @ w3 @ q1 @ w4 @ ''src-'' @ ds @
      w5 @ q2 @ w6 @ ''/>''"
    unfolding m0_def .
  have "s = m @ rest" using sm \<open>m = m0\<close> by simp
  moreover have "accepted_marker m sid"
    unfolding accepted_marker_def using m' sid h1 h2 h3 by blast
  ultimately show ?thesis by simp
qed

lemma cite_match_complete:
  assumes "accepted_marker m sid"
  shows "cite_match (m @ rest) \<noteq> None"
proof -
  from assms obtain w1 w2 w3 q1 w4 ds w5 q2 w6 where
    m: "m = ''<cite'' @ w1 @ ''source'' @ w2 @ ''='' @ w3 @ q1 @ w4 @ ''src-'' @ ds @
        w5 @ q2 @ w6 @ ''/>''"
    and h1: "w1 \<noteq> []" "spaces w1" "spaces w2" "spaces w3" "opt_quote q1" "spaces w4"
    and h2: "ds \<noteq> []" "list_all is_digit ds"
    and h3: "spaces w5" "opt_quote q2" "spaces w6"
    unfolding accepted_marker_def by blast
  let ?r2 = "w5 @ q2 @ w6 @ ''/>'' @ rest"
  let ?r1 = "''src-'' @ ds @ ?r2"
  let ?before = "lit ''<cite'' @ [(Q_plus, is_space)] @ lit ''source'' @
        [(Q_star, is_space)] @ lit ''='' @
        [(Q_star, is_space), (Q_opt, is_quote), (Q_star, is_space)]"
  let ?grp = "lit ''src-'' @ [(Q_plus, is_digit)]"
  let ?after = "[(Q_star, is_space), (Q_opt, is_quote), (Q_star, is_space)] @ lit ''/>''"
  have s: "m @ rest = ''<cite'' @ w1 @ ''source'' @ w2 @ ''='' @ w3 @ q1 @ w4 @ ?r1"
    unfolding m by simp
  have 1: "?r1 \<in> set (match_seq ?before (m @ rest))"
    unfolding in_cite_before using s h1 by blast
  have 2: "?r2 \<in> set (match_seq ?grp ?r1)"
    unfolding in_cite_group using h2 by blast
  have 3: "rest \<in> set (match_seq ?after ?r2)"
    unfolding in_cite_after using h3 by blast
  from 1 2 3 have "(?r1, ?r2, rest) \<in> set (triples ?before ?grp ?after (m @ rest))"
    unfolding in_triples by blast
  then have "triples ?before ?grp ?after (m @ rest) \<noteq> []" by auto
  then show ?thesis
    unfolding cite_match_def match_at_def triples_def by (auto split: list.splits)
qed

lemma accepted_marker_not_Nil: "accepted_marker m sid \<Longrightarrow> m \<noteq> []"
  by (auto simp: accepted_marker_def)

lemma contains_marker_iff:
  "contains_marker report \<longleftrightarrow>
     (\<exists>pre m sid post. report = pre @ m @ post \<and> accepted_marker m sid)"
proof (induction report)
  case Nil
  show ?case using accepted_marker_not_Nil by auto
next
  case (Cons c cs)
  show ?case
  proof
    assume "contains_marker (c # cs)"
    then consider "cite_match (c # cs) \<noteq> None" | "contains_marker cs" by auto
    then show "\<exists>pre m sid post. c # cs = pre @ m @ post \<and> accepted_marker m sid"
    proof cases
      case 1
      then obtain m sid rest where "cite_match (c # cs) = Some (m, sid, rest)" by auto
      from cite_match_sound[OF this] have "c # cs = [] @ m @ rest \<and> accepted_marker m sid"
        by simp
      then show ?thesis by blast
    next
      case 2
      then obtain pre m sid post where "cs = pre @ m @ post" "accepted_marker m sid"
        using Cons by blast
      then have "c # cs = (c # pre) @ m @ post \<and> accepted_marker m sid" by simp
      then show ?thesis by blast
    qed
  next
    assume "\<exists>pre m sid post. c # cs = pre @ m @ post \<and> accepted_marker m sid"
    then obtain pre m sid post where e: "c # cs = pre @ m @ post" and a: "accepted_marker m sid"
      by blast
    show "contains_marker (c # cs)"
    proof (cases pre)
      case Nil
      then have "c # cs = m @ post" using e by simp
      with cite_match_complete[OF a, of post] have "cite_match (c # cs) \<noteq> None" by simp
      then show ?thesis by simp
    next
      case (Cons x xs)
      then have "cs = xs @ m @ post" using e by simp
      then have "contains_marker cs" using a Cons.IH by blast
      then show ?thesis by simp
    qed
  qed
qed

lemma run_unique:
  assumes "list_all p xs" "list_all p ys" "xs @ a # r = ys @ b # r'" "\<not> p a" "\<not> p b"
  shows "xs = ys \<and> a = b \<and> r = r'"
  using assms
proof (induction xs arbitrary: ys)
  case Nil
  then show ?case by (cases ys) auto
next
  case (Cons x xs)
  show ?case
  proof (cases ys)
    case Nil
    then show ?thesis using Cons.prems by auto
  next
    case (Cons y ys')
    then have "xs = ys' \<and> a = b \<and> r = r'"
      using Cons.prems Cons.IH[of ys'] by simp
    then show ?thesis using Cons Cons.prems by simp
  qed
qed

lemma gap_run: "spaces w \<Longrightarrow> opt_quote q \<Longrightarrow> spaces v \<Longrightarrow> list_all is_gap (w @ q @ v)"
  by (auto simp: spaces_def opt_quote_def is_gap_def is_quote_def list_all_iff)

lemma accepted_marker_shape:
  assumes "accepted_marker m sid"
  shows "\<exists>w1 w2 u ds v.
     m = ''<cite'' @ w1 @ ''source'' @ w2 @ ''='' @ u @ ''src-'' @ ds @ v @ ''/>'' \<and>
     sid = ''src-'' @ ds \<and> list_all is_space w1 \<and> list_all is_space w2 \<and>
     list_all is_gap u \<and> list_all is_digit ds \<and> list_all is_gap v"
proof -
  from assms obtain w1 w2 w3 q1 w4 ds w5 q2 w6 where
    m: "m = ''<cite'' @ w1 @ ''source'' @ w2 @ ''='' @ w3 @ q1 @ w4 @ ''src-'' @ ds @
        w5 @ q2 @ w6 @ ''/>''"
    and sid: "sid = ''src-'' @ ds"
    and h: "spaces w1" "spaces w2" "spaces w3" "opt_quote q1" "spaces w4"
      "list_all is_digit ds" "spaces w5" "opt_quote q2" "spaces w6"
    unfolding accepted_marker_def by blast
  have "m = ''<cite'' @ w1 @ ''source'' @ w2 @ ''='' @ (w3 @ q1 @ w4) @ ''src-'' @ ds @
        (w5 @ q2 @ w6) @ ''/>''"
    unfolding m by simp
  with sid h(1,2,6) gap_run[OF h(3,4,5)] gap_run[OF h(7,8,9)] show ?thesis
    unfolding spaces_def by blast
qed

lemma accepted_marker_unique:
  assumes "accepted_marker m sid" "accepted_marker m' sid'" "m @ post = m' @ post'"
  shows "m = m' \<and> sid = sid' \<and> post = post'"
proof -
  from accepted_marker_shape[OF assms(1)] obtain w1 w2 u ds v where
    m: "m = ''<cite'' @ w1 @ ''source'' @ w2 @ ''='' @ u @ ''src-'' @ ds @ v @ ''/>''"
    and sid: "sid = ''src-'' @ ds"
    and h: "list_all is_space w1" "list_all is_space w2" "list_all is_gap u"
      "list_all is_digit ds" "list_all is_gap v"
    by blast
  from accepted_marker_shape[OF assms(2)] obtain w1' w2' u' ds' v' where
    m': "m' = ''<cite'' @ w1' @ ''source'' @ w2' @ ''='' @ u' @ ''src-'' @ ds' @ v' @ ''/>''"
    and sid': "sid' = ''src-'' @ ds'"
    and h': "list_all is_space w1'" "list_all is_space w2'" "list_all is_gap u'"
      "list_all is_digit ds'" "list_all is_gap v'"
    by blast
  have ns: "\<not> is_space CHR ''s''" "\<not> is_space CHR ''=''" "\<not> is_gap CHR ''s''"
    "\<not> is_gap CHR ''/''" "\<not> is_digit CHR ''/''"
    by (simp_all add: is_space_def is_gap_def is_quote_def is_digit_def dquote_def squote_def)
  have gd: "\<And>c. is_gap c \<Longrightarrow> \<not> is_digit c"
    by (auto simp: is_space_def is_gap_def is_quote_def is_digit_def dquote_def squote_def)
  let ?t4 = "''>'' @ post" and ?t4' = "''>'' @ post'"
  let ?t3 = "v @ CHR ''/'' # ?t4" and ?t3' = "v' @ CHR ''/'' # ?t4'"
  let ?t2 = "''rc-'' @ ds @ ?t3" and ?t2' = "''rc-'' @ ds' @ ?t3'"
  let ?t1 = "u @ CHR ''s'' # ?t2" and ?t1' = "u' @ CHR ''s'' # ?t2'"
  let ?t0 = "''ource'' @ w2 @ CHR ''='' # ?t1" and ?t0' = "''ource'' @ w2' @ CHR ''='' # ?t1'"
  from assms(3) have "w1 @ CHR ''s'' # ?t0 = w1' @ CHR ''s'' # ?t0'"
    unfolding m m' by simp
  from run_unique[OF h(1) h'(1) this ns(1) ns(1)] have e1: "w1 = w1'" and "?t0 = ?t0'"
    by simp_all
  then have "w2 @ CHR ''='' # ?t1 = w2' @ CHR ''='' # ?t1'" by simp
  from run_unique[OF h(2) h'(2) this ns(2) ns(2)] have e2: "w2 = w2'" and "?t1 = ?t1'"
    by simp_all
  from run_unique[OF h(3) h'(3) this(2) ns(3) ns(3)] have e3: "u = u'" and "?t2 = ?t2'"
    by simp_all
  then have t3: "ds @ ?t3 = ds' @ ?t3'" by simp
  obtain a r where a: "?t3 = a # r" "\<not> is_digit a"
  proof (cases v)
    case Nil
    then show ?thesis using that[of "CHR ''/''" ?t4] ns(5) by simp
  next
    case (Cons x xs)
    then have "is_gap x" using h(5) by simp
    then show ?thesis using that[of x "xs @ CHR ''/'' # ?t4"] Cons gd by simp
  qed
  obtain a' r' where a': "?t3' = a' # r'" "\<not> is_digit a'"
  proof (cases v')
    case Nil
    then show ?thesis using that[of "CHR ''/''" ?t4'] ns(5) by simp
  next
    case (Cons x xs)
    then have "is_gap x" using h'(5) by simp
    then show ?thesis using that[of x "xs @ CHR ''/'' # ?t4'"] Cons gd by simp
  qed
  from t3 have "ds @ a # r = ds' @ a' # r'" unfolding a(1) a'(1) .
  from run_unique[OF h(4) h'(4) this a(2) a'(2)] have e4: "ds = ds'" and "a # r = a' # r'"
    by simp_all
  then have "?t3 = ?t3'" unfolding a(1) a'(1) by simp
  from run_unique[OF h(5) h'(5) this ns(4) ns(4)] have e5: "v = v'" and "?t4 = ?t4'"
    by simp_all
  then have "post = post'" by simp
  then show ?thesis unfolding m m' sid sid' e1 e2 e3 e4 e5 by simp
qed

lemma cite_match_accepted:
  assumes "accepted_marker m sid"
  shows "cite_match (m @ post) = Some (m, sid, post)"
proof -
  from cite_match_complete[OF assms, of post] obtain m' sid' post' where
    r: "cite_match (m @ post) = Some (m', sid', post')" by auto
  from cite_match_sound[OF r] have "m @ post = m' @ post'" "accepted_marker m' sid'"
    by simp_all
  from accepted_marker_unique[OF assms this(2,1)] show ?thesis using r by simp
qed

lemma cite_match_iff:
  "cite_match s = Some (m, sid, rest) \<longleftrightarrow> s = m @ rest \<and> accepted_marker m sid"
  using cite_match_sound cite_match_accepted by blast

text \<open>The marker \<open><cite source="src-N" />\<close> is accepted.\<close>

lemma canonical_accepted:
  assumes "ds \<noteq> []" "list_all is_digit ds"
  shows "accepted_marker (cite_marker ds) (''src-'' @ ds)"
proof -
  have "cite_marker ds = ''<cite'' @ '' '' @ ''source'' @ [] @ ''='' @ [] @ [dquote] @ [] @
      ''src-'' @ ds @ [] @ [dquote] @ '' '' @ ''/>''"
    by (simp add: cite_marker_def)
  moreover have "spaces '' ''" "spaces []" "opt_quote [dquote]" "'' '' \<noteq> []"
    by (simp_all add: spaces_def opt_quote_def is_space_def)
  ultimately show ?thesis unfolding accepted_marker_def using assms by blast
qed

lemma canonical_match:
  assumes "ds \<noteq> []" "list_all is_digit ds"
  shows "cite_match (cite_marker ds @ post) = Some (cite_marker ds, ''src-'' @ ds, post)"
  by (rule cite_match_accepted[OF canonical_accepted[OF assms]])

section \<open>Facts about the substitution\<close>

lemma cite_match_Nil: "cite_match [] = None"
proof (cases "cite_match []")
  case None
  then show ?thesis .
next
  case (Some m)
  obtain w g r where "m = (w, g, r)" by (cases m) auto
  with Some cite_match_consumes[of "[]" w g r] show ?thesis by simp
qed

lemma sub_cite_at_match:
  assumes "cite_match s = Some (whole, short_id, rest)"
  shows "sub_cite srcs s =
     (case tag_replacer srcs whole short_id of
        Inl e \<Rightarrow> Inl e
      | Inr (repl, warned) \<Rightarrow>
          (case sub_cite srcs rest of
             Inl e \<Rightarrow> Inl e
           | Inr (out, logged) \<Rightarrow> Inr (repl @ out, warned @ logged)))"
proof (cases s)
  case Nil
  then show ?thesis using assms by (simp add: cite_match_Nil)
next
  case (Cons c cs)
  then show ?thesis using assms by simp
qed


lemma sub_cite_unmatched: "\<not> contains_marker report \<Longrightarrow> sub_cite srcs report = Inr (report, [])"
  by (induction report) (auto split: option.splits)

lemma render_alt:
  "render report srcs =
     (case sub_cite srcs report of Inl e \<Rightarrow> Inl e | Inr (replaced, logged) \<Rightarrow> Inr (sub_punct replaced))"
  by (simp add: render_def citation_replacement_callback_def report_state_def initial_state_def
      Let_def split: sum.splits)

lemma cite_match_starts:
  assumes "cite_match (c # cs) = Some m"
  shows "c = CHR ''<''"
proof -
  obtain w g r where m: "m = (w, g, r)" by (cases m) auto
  from assms[unfolded m cite_match_def] match_at_SomeD obtain r1 where
    "r1 \<in> set (match_seq (lit ''<cite'' @ [(Q_plus, is_space)] @ lit ''source'' @
        [(Q_star, is_space)] @ lit ''='' @
        [(Q_star, is_space), (Q_opt, is_quote), (Q_star, is_space)]) (c # cs))"
    by blast
  then show ?thesis by (auto simp: lit_def split: if_splits)
qed









lemma sub_cite_split:
  "sub_cite srcs (a @ CHR ''<'' # b) =
     (case sub_cite srcs a of
        Inl e \<Rightarrow> Inl e
      | Inr (out1, logged1) \<Rightarrow>
          (case sub_cite srcs (CHR ''<'' # b) of
             Inl e \<Rightarrow> Inl e
           | Inr (out2, logged2) \<Rightarrow> Inr (out1 @ out2, logged1 @ logged2)))"
proof (induction srcs a rule: sub_cite.induct)
  case (1 srcs)
  show ?case by (simp split: sum.splits)
next
  case (2 srcs x a)
  show ?case
  proof (cases "cite_match (x # a)")
    case None
    then have n: "cite_match (x # a @ CHR ''<'' # b) = None" by (simp add: cite_match_blocked)
    show ?thesis using 2(1)[OF None] None n by (simp split: sum.splits)
  next
    case (Some m)
    obtain w g r where m: "m = (w, g, r)" by (cases m) auto
    have n: "cite_match (x # a @ CHR ''<'' # b) = Some (w, g, r @ CHR ''<'' # b)"
      using Some by (simp add: cite_match_blocked m)
    show ?thesis
    proof (cases "tag_replacer srcs w g")
      case (Inl e)
      then show ?thesis using Some n by (simp add: m)
    next
      case (Inr rw)
      obtain repl warned where rw: "rw = (repl, warned)" by (cases rw) auto
      from 2(2)[OF Some[unfolded m] refl refl Inr[unfolded rw] refl]
      show ?thesis using Some n Inr by (simp add: m rw split: sum.splits)
    qed
  qed
qed

lemma sub_cite_around_match:
  assumes "cite_match (m @ post) = Some (m, short_id, post)"
  shows "sub_cite srcs (pre @ m @ post) =
     (case sub_cite srcs pre of
        Inl e \<Rightarrow> Inl e
      | Inr (out1, logged1) \<Rightarrow>
          (case tag_replacer srcs m short_id of
             Inl e \<Rightarrow> Inl e
           | Inr (repl, warned) \<Rightarrow>
               (case sub_cite srcs post of
                  Inl e \<Rightarrow> Inl e
                | Inr (out2, logged2) \<Rightarrow>
                    Inr (out1 @ repl @ out2, logged1 @ warned @ logged2))))"
proof -
  have "m @ post \<noteq> []" using assms cite_match_Nil by auto
  then obtain c cs where cs: "m @ post = c # cs" by (cases "m @ post") auto
  from cite_match_starts[OF assms[unfolded cs]] have c: "c = CHR ''<''" .
  have "sub_cite srcs (pre @ CHR ''<'' # cs) =
     (case sub_cite srcs pre of
        Inl e \<Rightarrow> Inl e
      | Inr (out1, logged1) \<Rightarrow>
          (case sub_cite srcs (CHR ''<'' # cs) of
             Inl e \<Rightarrow> Inl e
           | Inr (out2, logged2) \<Rightarrow> Inr (out1 @ out2, logged1 @ logged2)))"
    by (rule sub_cite_split)
  moreover have "sub_cite srcs (CHR ''<'' # cs) =
     (case tag_replacer srcs m short_id of
        Inl e \<Rightarrow> Inl e
      | Inr (repl, warned) \<Rightarrow>
          (case sub_cite srcs post of
             Inl e \<Rightarrow> Inl e
           | Inr (out, logged) \<Rightarrow> Inr (repl @ out, warned @ logged)))"
    using sub_cite_at_match[OF assms, of srcs] by (simp add: cs c)
  ultimately show ?thesis by (simp add: cs c split: sum.splits)
qed

section \<open>The claims\<close>

subsection \<open>C1: the URL index\<close>

text \<open>
  Claim C1. Start from the empty session state and run the collecting callback any number
  of times, each time over any list of events. The run never fails, and in the resulting
  URL index the URLs are the web URLs of the ingested events in the order in which they
  were first seen, each once; the ids are \<open>src-1\<close> to \<open>src-k\<close> in that same order, \<open>k\<close>
  being the number of URLs; and no id is given twice. So the index is injective, its ids
  are a contiguous run, and a URL gets its id when it is first seen, however many chunks,
  supports or later events mention it.
\<close>

theorem first_seen_index:
  "\<exists>st. run_callbacks invocations initial_state = Inr st \<and>
     map fst (get_url_to_short_id st) =
       first_seen_from [] (concat (map event_urls (concat invocations))) \<and>
     map snd (get_url_to_short_id st) =
       map (\<lambda>n. ''src-'' @ str_nat n) [1..<Suc (length (get_url_to_short_id st))] \<and>
     distinct (map fst (get_url_to_short_id st)) \<and>
     distinct (map snd (get_url_to_short_id st))"
proof -
  obtain st delta where run: "run_callbacks invocations initial_state = Inr st"
    and g: "grows (registry_of initial_state) (registry_of st)
              (concat (map event_urls (concat invocations))) delta"
    using run_callbacks_grows[OF state_ok_initial] by blast
  have ok: "registry_ok (registry_of st)" by (rule grows_ok[OF g])
  have "get_url_to_short_id initial_state = []"
    by (simp add: get_url_to_short_id_def initial_state_def)
  then have keys: "map fst (get_url_to_short_id st) =
      first_seen_from [] (concat (map event_urls (concat invocations)))"
    using g by (simp add: grows_def registry_of_def)
  have ids: "map snd (get_url_to_short_id st) =
       map (\<lambda>n. ''src-'' @ str_nat n) [1..<Suc (length (get_url_to_short_id st))]"
    and d1: "distinct (map fst (get_url_to_short_id st))"
    using ok by (simp_all add: registry_ok_def registry_of_def)
  have d2: "distinct (map snd (get_url_to_short_id st))"
    by (subst ids, rule distinct_short_ids) simp
  show ?thesis using run keys ids d1 d2 by blast
qed

subsection \<open>C2: a marker with a known id\<close>

text \<open>
  Claim C2, as amended. Let a text hold the marker \<open><cite source="src-N" />\<close>, for digits
  \<open>N\<close>, at any place, and let the source of \<open>src-N\<close> be a non-empty dict with a URL.
  The substitution of the markers handles the text before the marker and the text after
  it each on its own, and replaces the marker by one space and \<open>[display](url)\<close>, where
  \<open>display\<close> is the title whenever the source has a title entry, empty or not, else the
  domain when it has a domain entry, else the short id; \<open>url\<close> is the source's URL
  unchanged. The callback returns the text so obtained after the punctuation clean-up.
\<close>

theorem present_marker_rendered:
  assumes "ds \<noteq> []" and "list_all is_digit ds"
    and "dict_get srcs (''src-'' @ ds) = Some info" and "info \<noteq> empty_dict"
    and "src_url info = Some url"
    and "sub_cite srcs pre = Inr (out1, logged1)"
    and "sub_cite srcs post = Inr (out2, logged2)"
  shows "sub_cite srcs (pre @ cite_marker ds @ post) =
     Inr (out1 @ '' ['' @
            (case src_title info of
               Some t \<Rightarrow> t
             | None \<Rightarrow> (case src_domain info of Some d \<Rightarrow> d | None \<Rightarrow> ''src-'' @ ds)) @
            '']('' @ url @ '')'' @ out2,
          logged1 @ logged2) \<and>
   render (pre @ cite_marker ds @ post) srcs =
     Inr (sub_punct (out1 @ '' ['' @
            (case src_title info of
               Some t \<Rightarrow> t
             | None \<Rightarrow> (case src_domain info of Some d \<Rightarrow> d | None \<Rightarrow> ''src-'' @ ds)) @
            '']('' @ url @ '')'' @ out2))"
proof -
  have "tag_replacer srcs (cite_marker ds) (''src-'' @ ds) =
      Inr ('' ['' @
            (case src_title info of
               Some t \<Rightarrow> t
             | None \<Rightarrow> (case src_domain info of Some d \<Rightarrow> d | None \<Rightarrow> ''src-'' @ ds)) @
            '']('' @ url @ '')'', [])"
    using assms(3,4,5) by (simp add: tag_replacer_def split: option.splits)
  then have "sub_cite srcs (pre @ cite_marker ds @ post) =
      Inr (out1 @ '' ['' @
            (case src_title info of
               Some t \<Rightarrow> t
             | None \<Rightarrow> (case src_domain info of Some d \<Rightarrow> d | None \<Rightarrow> ''src-'' @ ds)) @
            '']('' @ url @ '')'' @ out2, logged1 @ logged2)"
    using sub_cite_around_match[OF canonical_match[OF assms(1,2)], of srcs pre post] assms(6,7)
    by simp
  then show ?thesis by (simp add: render_alt)
qed

theorem present_marker_rendered_witness:
  "''1'' \<noteq> [] \<and> list_all is_digit ''1'' \<and>
   dict_get [(''src-1'', titled_source)] (''src-'' @ ''1'') = Some titled_source \<and>
   titled_source \<noteq> empty_dict \<and> src_url titled_source = Some ''https://a.com'' \<and>
   sub_cite [(''src-1'', titled_source)] ''Revenue grew '' = Inr (''Revenue grew '', []) \<and>
   sub_cite [(''src-1'', titled_source)] '' , says report.'' = Inr ('' , says report.'', []) \<and>
   sub_cite [(''src-1'', titled_source)]
       (''Revenue grew '' @ cite_marker ''1'' @ '' , says report.'') =
     Inr (''Revenue grew  [A](https://a.com) , says report.'', [])"
proof -
  have h1: "''1'' \<noteq> []" by simp
  have h2: "list_all is_digit ''1''" by code_simp
  have h4: "dict_get [(''src-1'', titled_source)] (''src-'' @ ''1'') = Some titled_source"
    by (simp add: dict_get_def)
  have h5: "titled_source \<noteq> empty_dict" by (simp add: titled_source_def empty_dict_def)
  have h6: "src_url titled_source = Some ''https://a.com''" by (simp add: titled_source_def)
  have h3: "sub_cite [(''src-1'', titled_source)] ''Revenue grew '' = Inr (''Revenue grew '', [])"
    by code_simp
  have h7: "sub_cite [(''src-1'', titled_source)] '' , says report.'' =
      Inr ('' , says report.'', [])" by code_simp
  from present_marker_rendered[OF h1 h2 h4 h5 h6 h3 h7, THEN conjunct1]
  have "sub_cite [(''src-1'', titled_source)]
       (''Revenue grew '' @ cite_marker ''1'' @ '' , says report.'') =
     Inr (''Revenue grew  [A](https://a.com) , says report.'', [])"
    by (simp add: titled_source_def)
  with h1 h2 h3 h4 h5 h6 h7 show ?thesis by blast
qed

text \<open>
  Counterexample to claim C2 as stated. A chunk with the empty title and the domain
  \<open>a.com\<close> is registered with the empty title, and its marker is rendered with the empty
  display text, not with the domain.
\<close>

theorem empty_title_displayed:
  "collect_research_sources_callback [untitled_event] initial_state =
     Inr (initial_state\<lparr>url_to_short_id := Some [(''https://a.com'', ''src-1'')],
            sources := Some [(''src-1'', untitled_source)]\<rparr>) \<and>
   render (cite_marker ''1'') [(''src-1'', untitled_source)] = Inr '' [](https://a.com)'' \<and>
   render (cite_marker ''1'') [(''src-1'', untitled_source)] \<noteq> Inr '' [a.com](https://a.com)''"
  by code_simp

subsection \<open>C3: the rendering example\<close>

text \<open>
  Claim C3, as amended. For the text and the source of the example the callback returns
  the text with two spaces between the word \<open>grew\<close> and the link: the space of the text
  before the marker and the space that starts every replacement.
\<close>

theorem render_example_double_space:
  "render (''Revenue grew '' @ cite_marker ''1'' @ '' , says report.'')
     [(''src-1'', titled_source)] =
   Inr ''Revenue grew  [A](https://a.com), says report.''"
  by code_simp

text \<open>
  Counterexample to claim C3 as stated: the callback does not return the text with one
  space before the link.
\<close>

theorem render_example_not_single_space:
  "render (''Revenue grew '' @ cite_marker ''1'' @ '' , says report.'')
     [(''src-1'', titled_source)] \<noteq>
   Inr ''Revenue grew [A](https://a.com), says report.''"
  by code_simp

subsection \<open>C4: text that is not a marker\<close>

text \<open>
  Claim C4, as amended. A text no part of which is accepted by the pattern of line 114
  is left as it is by the substitution of the markers, without a warning, and the
  callback returns it after the punctuation clean-up alone. In that pattern each of the
  two quotes is optional.
\<close>

theorem unmatched_text_verbatim:
  assumes "\<not> (\<exists>pre m sid post. report = pre @ m @ post \<and> accepted_marker m sid)"
  shows "sub_cite srcs report = Inr (report, []) \<and> render report srcs = Inr (sub_punct report)"
proof -
  from assms have "\<not> contains_marker report" unfolding contains_marker_iff .
  from sub_cite_unmatched[OF this, of srcs] show ?thesis by (simp add: render_alt)
qed

theorem unmatched_text_verbatim_witness:
  "\<not> (\<exists>pre m sid post.
        ''<cite source=src-x /> <citesource=src-1/> <cite src-1 />'' = pre @ m @ post \<and>
        accepted_marker m sid) \<and>
   sub_cite [(''src-1'', titled_source)]
       ''<cite source=src-x /> <citesource=src-1/> <cite src-1 />'' =
     Inr (''<cite source=src-x /> <citesource=src-1/> <cite src-1 />'', []) \<and>
   render ''<cite source=src-x /> <citesource=src-1/> <cite src-1 />''
       [(''src-1'', titled_source)] =
     Inr ''<cite source=src-x /> <citesource=src-1/> <cite src-1 />''"
proof -
  have "\<not> contains_marker ''<cite source=src-x /> <citesource=src-1/> <cite src-1 />''"
    by code_simp
  then have h: "\<not> (\<exists>pre m sid post.
      ''<cite source=src-x /> <citesource=src-1/> <cite src-1 />'' = pre @ m @ post \<and>
      accepted_marker m sid)"
    unfolding contains_marker_iff .
  have p: "sub_punct ''<cite source=src-x /> <citesource=src-1/> <cite src-1 />'' =
      ''<cite source=src-x /> <citesource=src-1/> <cite src-1 />''"
    by code_simp
  from unmatched_text_verbatim[OF h, of "[(''src-1'', titled_source)]"] h p
  show ?thesis by simp
qed

text \<open>
  Counterexample to claim C4 as stated: a marker whose id has no quotes is replaced.
\<close>

theorem unquoted_marker_replaced:
  "render ''<cite source=src-1 />'' [(''src-1'', titled_source)] = Inr '' [A](https://a.com)'' \<and>
   render ''<cite source=src-1 />'' [(''src-1'', titled_source)] \<noteq> Inr ''<cite source=src-1 />''"
  by code_simp

subsection \<open>C5: the bounded retry loop\<close>

text \<open>
  Claim C5. With the sub-stages evaluator, escalation checker, refiner in this order and
  a budget of \<open>N\<close> iterations: if the evaluator and the refiner never fail and the
  evaluator never grades \<open>pass\<close>, the loop returns without failure, by exhaustion, after
  exactly \<open>N\<close> full iterations. If the first \<open>i - 1\<close> iterations ran without escalation
  (then they were full iterations) and the evaluator grades \<open>pass\<close> in iteration
  \<open>i \<le> N\<close>, the loop ends by escalation right after the checker of iteration \<open>i\<close>: the
  refiner of that iteration does not run and no further iteration starts.
\<close>

theorem loop_exhausts_or_escalates:
  "((\<forall>s. \<exists>s'. evaluator s = Inr s' \<and> \<not> graded_pass s') \<and> (\<forall>s. \<exists>s'. refiner s = Inr s') \<longrightarrow>
      (\<exists>st'. iterative_refinement_loop N evaluator refiner st =
         Inr (st', concat (replicate N full_iteration), Exhausted))) \<and>
   (1 \<le> i \<and> i \<le> N \<and>
    iterative_refinement_loop (i - 1) evaluator refiner st = Inr (st1, tr, Exhausted) \<and>
    evaluator st1 = Inr st2 \<and> graded_pass st2 \<longrightarrow>
      tr = concat (replicate (i - 1) full_iteration) \<and>
      iterative_refinement_loop N evaluator refiner st =
        Inr (st2, concat (replicate (i - 1) full_iteration) @
               [''research_evaluator'', ''escalation_checker''], Escalated))"
proof (intro conjI impI)
  assume "(\<forall>s. \<exists>s'. evaluator s = Inr s' \<and> \<not> graded_pass s') \<and> (\<forall>s. \<exists>s'. refiner s = Inr s')"
  then show "\<exists>st'. iterative_refinement_loop N evaluator refiner st =
         Inr (st', concat (replicate N full_iteration), Exhausted)"
    using loop_never_pass[of evaluator refiner N st] by simp
next
  assume a: "1 \<le> i \<and> i \<le> N \<and>
    iterative_refinement_loop (i - 1) evaluator refiner st = Inr (st1, tr, Exhausted) \<and>
    evaluator st1 = Inr st2 \<and> graded_pass st2"
  then show "tr = concat (replicate (i - 1) full_iteration)"
    using loop_exhausted_trace[of "i - 1" evaluator refiner st st1 tr] by simp
  from a show "iterative_refinement_loop N evaluator refiner st =
        Inr (st2, concat (replicate (i - 1) full_iteration) @
               [''research_evaluator'', ''escalation_checker''], Escalated)"
    using loop_pass_at[of i N evaluator refiner st st1 tr st2] by simp
qed

theorem loop_exhausts_or_escalates_witness:
  "(\<forall>s. \<exists>s'. never_pass_evaluator s = Inr s' \<and> \<not> graded_pass s') \<and>
   (\<forall>s. \<exists>s'. idle_refiner s = Inr s') \<and>
   (\<exists>st'. iterative_refinement_loop 3 never_pass_evaluator idle_refiner initial_state =
      Inr (st', concat (replicate 3 full_iteration), Exhausted)) \<and>
   (1::nat) \<le> 2 \<and> (2::nat) \<le> 3 \<and>
   iterative_refinement_loop (2 - 1) second_pass_evaluator marking_refiner initial_state =
     Inr (initial_state\<lparr>research_evaluation := Some failing_grade, sources := Some []\<rparr>,
          full_iteration, Exhausted) \<and>
   second_pass_evaluator
       (initial_state\<lparr>research_evaluation := Some failing_grade, sources := Some []\<rparr>) =
     Inr (initial_state\<lparr>research_evaluation := Some passing_grade, sources := Some []\<rparr>) \<and>
   graded_pass (initial_state\<lparr>research_evaluation := Some passing_grade, sources := Some []\<rparr>) \<and>
   iterative_refinement_loop 3 second_pass_evaluator marking_refiner initial_state =
     Inr (initial_state\<lparr>research_evaluation := Some passing_grade, sources := Some []\<rparr>,
          concat (replicate (2 - 1) full_iteration) @
            [''research_evaluator'', ''escalation_checker''], Escalated)"
proof -
  let ?s1 = "initial_state\<lparr>research_evaluation := Some failing_grade, sources := Some []\<rparr>"
  let ?s2 = "initial_state\<lparr>research_evaluation := Some passing_grade, sources := Some []\<rparr>"
  have a1: "\<forall>s. \<exists>s'. never_pass_evaluator s = Inr s' \<and> \<not> graded_pass s'"
    by (simp add: never_pass_evaluator_def graded_pass_def failing_grade_def)
  have a2: "\<forall>s. \<exists>s'. idle_refiner s = Inr s'"
    by (simp add: idle_refiner_def)
  have a: "\<exists>st'. iterative_refinement_loop 3 never_pass_evaluator idle_refiner initial_state =
      Inr (st', concat (replicate 3 full_iteration), Exhausted)"
    using loop_exhausts_or_escalates[where evaluator = never_pass_evaluator
        and refiner = idle_refiner and N = 3 and st = initial_state, THEN conjunct1] a1 a2
    by blast
  have b1: "iterative_refinement_loop (2 - 1) second_pass_evaluator marking_refiner initial_state =
     Inr (?s1, full_iteration, Exhausted)"
    by (simp add: loop_Suc loop_0 second_pass_evaluator_def marking_refiner_def
        initial_state_def graded_pass_def failing_grade_def)
  have b2: "second_pass_evaluator ?s1 = Inr ?s2"
    by (simp add: second_pass_evaluator_def)
  have b3: "graded_pass ?s2"
    by (simp add: graded_pass_def passing_grade_def)
  have b: "iterative_refinement_loop 3 second_pass_evaluator marking_refiner initial_state =
     Inr (?s2, concat (replicate (2 - 1) full_iteration) @
            [''research_evaluator'', ''escalation_checker''], Escalated)"
    using loop_exhausts_or_escalates[where evaluator = second_pass_evaluator
        and refiner = marking_refiner and N = 3 and st = initial_state and i = 2
        and ?st1.0 = ?s1 and tr = full_iteration and ?st2.0 = ?s2, THEN conjunct2] b1 b2 b3
    by simp
  show ?thesis using a1 a2 a b1 b2 b3 b by simp
qed

subsection \<open>C6: the confidence of a claim\<close>



subsection \<open>C7: a marker with an unknown id\<close>




subsection \<open>C8: ingesting again\<close>

text \<open>
  Claim C8. From a well-formed registry, running the callback a second time over the same
  events leaves the URL index, the keys of \<open>sources\<close> and the identity fields of every
  source as they were after the first run, and appends to every source the very claims
  that the first run appended: the claims are duplicated. Across any sequence of
  invocations the run does not fail, the index and the keys of \<open>sources\<close> are extended at
  the end only, and an existing source keeps its identity fields and its earlier claims.
\<close>

theorem reingest_duplicates_claims:
  assumes "state_ok st"
  shows "(\<exists>st1 st2.
            collect_research_sources_callback evs st = Inr st1 \<and>
            collect_research_sources_callback evs st1 = Inr st2 \<and>
            get_url_to_short_id st2 = get_url_to_short_id st1 \<and>
            map fst (get_sources st2) = map fst (get_sources st1) \<and>
            (\<forall>k. identity_of (get_sources st2) k = identity_of (get_sources st1) k) \<and>
            (\<forall>k. claims_of (get_sources st1) k =
                   claims_of (get_sources st) k @ events_claims (get_url_to_short_id st1) evs k) \<and>
            (\<forall>k. claims_of (get_sources st2) k =
                   claims_of (get_sources st1) k @ events_claims (get_url_to_short_id st1) evs k)) \<and>
         (\<forall>invs. \<exists>st'.
            run_callbacks invs st = Inr st' \<and>
            prefix (get_url_to_short_id st) (get_url_to_short_id st') \<and>
            prefix (map fst (get_sources st)) (map fst (get_sources st')) \<and>
            (\<forall>k. identity_of (get_sources st) k \<noteq> None \<longrightarrow>
                   identity_of (get_sources st') k = identity_of (get_sources st) k \<and>
                   prefix (claims_of (get_sources st) k) (claims_of (get_sources st') k)))"
proof (intro conjI allI)
  let ?urls = "concat (map event_urls evs)"
  obtain st1 where run1: "collect_research_sources_callback evs st = Inr st1"
    and g1: "grows (registry_of st) (registry_of st1) ?urls
               (events_claims (get_url_to_short_id st1) evs)"
    using callback_grows[OF assms] by blast
  have ok1: "state_ok st1" using grows_ok[OF g1] by (simp add: state_ok_def)
  obtain st2 where run2: "collect_research_sources_callback evs st1 = Inr st2"
    and g2: "grows (registry_of st1) (registry_of st2) ?urls
               (events_claims (get_url_to_short_id st2) evs)"
    using callback_grows[OF ok1] by blast
  have known: "set ?urls \<subseteq> set (map fst (get_url_to_short_id st1))"
    using grows_knows[OF g1] by (simp add: registry_of_def)
  have "map fst (get_url_to_short_id st2) = map fst (get_url_to_short_id st1)"
    using g2 first_seen_from_known[OF known] by (simp add: grows_def registry_of_def)
  moreover have "prefix (get_url_to_short_id st1) (get_url_to_short_id st2)"
    using g2 by (simp add: grows_def registry_of_def)
  ultimately have same: "get_url_to_short_id st2 = get_url_to_short_id st1"
    by (rule prefix_same_keys[rotated])
  have keys1: "map fst (get_sources st1) = map snd (get_url_to_short_id st1)"
    using grows_ok[OF g1] by (simp add: registry_ok_def registry_of_def)
  have keys2: "map fst (get_sources st2) = map snd (get_url_to_short_id st2)"
    using grows_ok[OF g2] by (simp add: registry_ok_def registry_of_def)
  have keys: "map fst (get_sources st2) = map fst (get_sources st1)"
    by (simp add: keys1 keys2 same)
  have ident: "identity_of (get_sources st2) k = identity_of (get_sources st1) k" for k
  proof (cases "k \<in> set (map fst (get_sources st1))")
    case True
    from identity_of_present[OF this] g2 show ?thesis by (simp add: grows_def registry_of_def)
  next
    case False
    then show ?thesis using keys by (simp add: identity_of_absent)
  qed
  have c1: "claims_of (get_sources st1) k =
      claims_of (get_sources st) k @ events_claims (get_url_to_short_id st1) evs k" for k
    using g1 by (simp add: grows_def registry_of_def)
  have c2: "claims_of (get_sources st2) k =
      claims_of (get_sources st1) k @ events_claims (get_url_to_short_id st1) evs k" for k
    using g2 by (simp add: grows_def registry_of_def same)
  show "\<exists>st1 st2.
            collect_research_sources_callback evs st = Inr st1 \<and>
            collect_research_sources_callback evs st1 = Inr st2 \<and>
            get_url_to_short_id st2 = get_url_to_short_id st1 \<and>
            map fst (get_sources st2) = map fst (get_sources st1) \<and>
            (\<forall>k. identity_of (get_sources st2) k = identity_of (get_sources st1) k) \<and>
            (\<forall>k. claims_of (get_sources st1) k =
                   claims_of (get_sources st) k @ events_claims (get_url_to_short_id st1) evs k) \<and>
            (\<forall>k. claims_of (get_sources st2) k =
                   claims_of (get_sources st1) k @ events_claims (get_url_to_short_id st1) evs k)"
    using run1 run2 same keys ident c1 c2 by blast
next
  fix invs
  obtain st' delta where run: "run_callbacks invs st = Inr st'"
    and g: "grows (registry_of st) (registry_of st') (concat (map event_urls (concat invs))) delta"
    using run_callbacks_grows[OF assms] by blast
  have "prefix (claims_of (get_sources st) k) (claims_of (get_sources st') k)" for k
    using g by (simp add: grows_def registry_of_def)
  then show "\<exists>st'.
            run_callbacks invs st = Inr st' \<and>
            prefix (get_url_to_short_id st) (get_url_to_short_id st') \<and>
            prefix (map fst (get_sources st)) (map fst (get_sources st')) \<and>
            (\<forall>k. identity_of (get_sources st) k \<noteq> None \<longrightarrow>
                   identity_of (get_sources st') k = identity_of (get_sources st) k \<and>
                   prefix (claims_of (get_sources st) k) (claims_of (get_sources st') k))"
    using run g by (simp add: grows_def registry_of_def)
qed

theorem reingest_duplicates_claims_witness:
  "state_ok initial_state \<and>
   (\<exists>st1 st2.
      collect_research_sources_callback [example_event] initial_state = Inr st1 \<and>
      collect_research_sources_callback [example_event] st1 = Inr st2 \<and>
      get_url_to_short_id st1 = [(''https://a.com'', ''src-1'')] \<and>
      get_url_to_short_id st2 = [(''https://a.com'', ''src-1'')] \<and>
      map fst (get_sources st2) = [''src-1''] \<and>
      claims_of (get_sources st1) ''src-1'' =
        [\<lparr>text_segment = ''claim text'', confidence = 0.9\<rparr>] \<and>
      claims_of (get_sources st2) ''src-1'' =
        [\<lparr>text_segment = ''claim text'', confidence = 0.9\<rparr>,
         \<lparr>text_segment = ''claim text'', confidence = 0.9\<rparr>])"
proof -
  from reingest_duplicates_claims[OF state_ok_initial, of "[example_event]"]
  obtain st1 st2 where
    run1: "collect_research_sources_callback [example_event] initial_state = Inr st1" and
    run2: "collect_research_sources_callback [example_event] st1 = Inr st2" and
    same: "get_url_to_short_id st2 = get_url_to_short_id st1" and
    keys: "map fst (get_sources st2) = map fst (get_sources st1)" and
    dup: "claims_of (get_sources st2) ''src-1'' =
            claims_of (get_sources st1) ''src-1'' @
            events_claims (get_url_to_short_id st1) [example_event] ''src-1''"
    by blast
  have st1: "st1 = initial_state\<lparr>url_to_short_id := Some [(''https://a.com'', ''src-1'')],
            sources := Some [(''src-1'',
              example_source [\<lparr>text_segment = ''claim text'', confidence = 0.9\<rparr>])]\<rparr>"
    using run1 by (simp add: example_first)
  have idx: "get_url_to_short_id st1 = [(''https://a.com'', ''src-1'')]"
    by (simp add: st1 get_url_to_short_id_def)
  have k1: "map fst (get_sources st1) = [''src-1'']"
    by (simp add: st1 get_sources_def)
  have c1: "claims_of (get_sources st1) ''src-1'' =
      [\<lparr>text_segment = ''claim text'', confidence = 0.9\<rparr>]"
    by (simp add: st1 get_sources_def claims_of_def dict_get_def example_source_def)
  have d: "events_claims [(''https://a.com'', ''src-1'')] [example_event] ''src-1'' =
      [\<lparr>text_segment = ''claim text'', confidence = 0.9\<rparr>]"
    by (simp add: events_claims_def event_claims_def event_supports_def event_chunks_def
        example_event_def support_claims_def position_claims_def chunk_sid_def dict_get_def
        make_claim_def)
  show ?thesis
    using state_ok_initial run1 run2 same keys dup by (simp add: idx k1 c1 d)
qed

subsection \<open>C9: the escalation checker\<close>

text \<open>
  Claim C9. For every session state the checker yields exactly one event, which is one
  of two: the event with the escalate flag set when the state holds an evaluation whose
  grade is \<open>pass\<close>, and the plain event otherwise (no evaluation, or any other grade);
  so it signals escalate if and only if an evaluation exists and its grade is \<open>pass\<close>.
  The checker is a function of its name and the state and returns events only: it keeps
  and writes no state.
\<close>

theorem escalation_checker_iff:
  "escalation_checker name st =
     (if \<exists>fb. research_evaluation st = Some fb \<and> grade fb = Some ''pass''
      then [\<lparr>author = name, actions = \<lparr>escalate = Some True\<rparr>, grounding_metadata = None\<rparr>]
      else [\<lparr>author = name, actions = \<lparr>escalate = None\<rparr>, grounding_metadata = None\<rparr>]) \<and>
   (list_ex signals_escalate (escalation_checker name st) \<longleftrightarrow>
      (\<exists>fb. research_evaluation st = Some fb \<and> grade fb = Some ''pass''))"
proof -
  have "(case research_evaluation st of None \<Rightarrow> False
         | Some fb \<Rightarrow> fb \<noteq> empty_feedback \<and> grade fb = Some ''pass'') \<longleftrightarrow>
        (\<exists>fb. research_evaluation st = Some fb \<and> grade fb = Some ''pass'')"
    by (cases "research_evaluation st") (auto simp: empty_feedback_def)
  then show ?thesis
    by (simp add: escalation_checker_def signals_escalate_def)
qed

subsection \<open>C10: chunk indices without a source\<close>

text \<open>
  Claim C10. Let an event be ingested from a well-formed registry, and let one of its
  supports hold, at some position of its chunk indices, an index that is negative,
  beyond the event's chunks, or that of a chunk without a web reference. First, the
  record: in the chunk map \<open>ci\<close> that the loop over the event's chunks builds the index
  is absent, and in every state \<open>s0\<close> that the earlier supports can leave (the sources of
  the chunk loop, each with a claim list) the body of the loop over the supports does
  not fail on this support and appends exactly the claims of its other positions, each
  with the confidence of its own position, so nothing for the absent index. Second,
  the event: \<open>event_body\<close> does not fail, and the claims it appends to a source are those
  of the earlier supports, then those of the other positions of this support, then
  those of the later supports.
\<close>

theorem absent_index_skipped:
  assumes "registry_ok r"
    and "event_supports ev = earlier @ support # later"
    and "or_empty (grounding_chunk_indices support) = pre @ idx # post"
    and "idx < 0 \<or> int (length (event_chunks ev)) \<le> idx \<or>
         web (event_chunks ev ! nat idx) = None"
  shows "(\<forall>u s c ci s0.
        chunks_loop 0 (event_chunks ev) (r, []) = Inr ((u, s, c), ci) \<and>
        sources_ok s0 \<and> map fst s0 = map fst s \<longrightarrow>
          dict_get ci idx = None \<and>
          (\<exists>s2. support_body ci support s0 = Inr s2 \<and>
             (\<forall>sid. claims_of s2 sid = claims_of s0 sid @
                map (\<lambda>(i, chunk_idx).
                       make_claim (or_empty (confidence_scores support)) (segment support) i)
                  (filter (\<lambda>(i, chunk_idx). dict_get ci chunk_idx = Some sid)
                     (enumerate 0 pre @ enumerate (Suc (length pre)) post))))) \<and>
     (\<exists>u' s' c'. event_body ev r = Inr (u', s', c') \<and>
        (\<forall>sid. claims_of s' sid = claims_of (fst (snd r)) sid @
           concat (map (\<lambda>sp. support_claims (chunk_sid u' (event_chunks ev)) sp sid) earlier) @
           map (\<lambda>(i, chunk_idx).
                  make_claim (or_empty (confidence_scores support)) (segment support) i)
             (filter (\<lambda>(i, chunk_idx). chunk_sid u' (event_chunks ev) chunk_idx = Some sid)
                (enumerate 0 pre @ enumerate (Suc (length pre)) post)) @
           concat (map (\<lambda>sp. support_claims (chunk_sid u' (event_chunks ev)) sp sid) later)))"
proof (rule conjI, intro allI impI)
  fix u s c ci s0
  assume a: "chunks_loop 0 (event_chunks ev) (r, []) = Inr ((u, s, c), ci) \<and>
        sources_ok s0 \<and> map fst s0 = map fst s"
  then have run: "chunks_loop 0 (event_chunks ev) (r, []) = Inr ((u, s, c), ci)"
    and ok0: "sources_ok s0" and keys: "map fst s0 = map fst s"
    by simp_all
  have "dict_get ci idx = chunk_sid u (event_chunks ev) idx"
    using chunks_loop_info0[OF assms(1) run] by simp
  then have absent: "dict_get ci idx = None"
    using absent_chunk_sid[OF assms(4)] by simp
  have "set (map snd ci) \<subseteq> set (map fst s)"
    using supports_ready[OF assms(1) run] by simp
  then have sub: "set (map snd ci) \<subseteq> set (map fst s0)" using keys by simp
  obtain s2 where r2: "indices_loop ci (or_empty (confidence_scores support)) (segment support) 0
        (pre @ idx # post) s0 = Inr s2"
    and added: "claims_added s0 s2
       (position_claims (dict_get ci) (or_empty (confidence_scores support)) (segment support)
          (enumerate 0 (pre @ idx # post)))"
    using indices_loop_added[OF ok0 sub] by blast
  have body: "support_body ci support s0 = Inr s2"
    unfolding support_body_def assms(3) by (rule r2)
  have "\<forall>sid. claims_of s2 sid = claims_of s0 sid @
                map (\<lambda>(i, chunk_idx).
                       make_claim (or_empty (confidence_scores support)) (segment support) i)
                  (filter (\<lambda>(i, chunk_idx). dict_get ci chunk_idx = Some sid)
                     (enumerate 0 pre @ enumerate (Suc (length pre)) post))"
    using added absent_position_claims[where look = "dict_get ci" and idx = idx, OF absent]
    by (simp add: claims_added_def)
  with body absent show "dict_get ci idx = None \<and>
          (\<exists>s2. support_body ci support s0 = Inr s2 \<and>
             (\<forall>sid. claims_of s2 sid = claims_of s0 sid @
                map (\<lambda>(i, chunk_idx).
                       make_claim (or_empty (confidence_scores support)) (segment support) i)
                  (filter (\<lambda>(i, chunk_idx). dict_get ci chunk_idx = Some sid)
                     (enumerate 0 pre @ enumerate (Suc (length pre)) post))))"
    by blast
next
  from event_body_grows[OF assms(1), of ev] obtain r' where
    run: "event_body ev r = Inr r'" and g: "grows r r' (event_urls ev) (event_claims (fst r') ev)"
    by blast
  obtain u' s' c' where r': "r' = (u', s', c')" by (cases r') auto
  from g have cl: "\<And>k. claims_of s' k = claims_of (fst (snd r)) k @ event_claims u' ev k"
    by (simp add: grows_def r')
  have absent: "chunk_sid u' (event_chunks ev) idx = None"
    by (rule absent_chunk_sid[OF assms(4)])
  have one: "support_claims (chunk_sid u' (event_chunks ev)) support sid =
      map (\<lambda>(i, chunk_idx). make_claim (or_empty (confidence_scores support)) (segment support) i)
        (filter (\<lambda>(i, chunk_idx). chunk_sid u' (event_chunks ev) chunk_idx = Some sid)
           (enumerate 0 pre @ enumerate (Suc (length pre)) post))" for sid
    unfolding support_claims_def assms(3)
    by (rule absent_position_claims[where look = "chunk_sid u' (event_chunks ev)" and idx = idx,
          OF absent])
  have "event_claims u' ev sid =
      concat (map (\<lambda>sp. support_claims (chunk_sid u' (event_chunks ev)) sp sid) earlier) @
      map (\<lambda>(i, chunk_idx). make_claim (or_empty (confidence_scores support)) (segment support) i)
        (filter (\<lambda>(i, chunk_idx). chunk_sid u' (event_chunks ev) chunk_idx = Some sid)
           (enumerate 0 pre @ enumerate (Suc (length pre)) post)) @
      concat (map (\<lambda>sp. support_claims (chunk_sid u' (event_chunks ev)) sp sid) later)" for sid
    unfolding event_claims_def assms(2) using one[of sid] by simp
  with cl have "\<forall>sid. claims_of s' sid = claims_of (fst (snd r)) sid @
      concat (map (\<lambda>sp. support_claims (chunk_sid u' (event_chunks ev)) sp sid) earlier) @
      map (\<lambda>(i, chunk_idx). make_claim (or_empty (confidence_scores support)) (segment support) i)
        (filter (\<lambda>(i, chunk_idx). chunk_sid u' (event_chunks ev) chunk_idx = Some sid)
           (enumerate 0 pre @ enumerate (Suc (length pre)) post)) @
      concat (map (\<lambda>sp. support_claims (chunk_sid u' (event_chunks ev)) sp sid) later)"
    by simp
  with run r' show "\<exists>u' s' c'. event_body ev r = Inr (u', s', c') \<and>
        (\<forall>sid. claims_of s' sid = claims_of (fst (snd r)) sid @
           concat (map (\<lambda>sp. support_claims (chunk_sid u' (event_chunks ev)) sp sid) earlier) @
           map (\<lambda>(i, chunk_idx).
                  make_claim (or_empty (confidence_scores support)) (segment support) i)
             (filter (\<lambda>(i, chunk_idx). chunk_sid u' (event_chunks ev) chunk_idx = Some sid)
                (enumerate 0 pre @ enumerate (Suc (length pre)) post)) @
           concat (map (\<lambda>sp. support_claims (chunk_sid u' (event_chunks ev)) sp sid) later))"
    by blast
qed


theorem absent_index_skipped_witness:
  "registry_ok ([], [], 1) \<and>
   event_supports mixed_event = [] @ mixed_support # [] \<and>
   or_empty (grounding_chunk_indices mixed_support) = [0] @ 1 # [0] \<and>
   web (event_chunks mixed_event ! nat 1) = None \<and>
   chunks_loop 0 (event_chunks mixed_event) (([], [], 1), []) =
     Inr (([(''https://a.com'', ''src-1'')], [(''src-1'', example_source [])], 2),
          [(0, ''src-1'')]) \<and>
   sources_ok [(''src-1'', example_source [])] \<and>
   dict_get [(0::int, ''src-1'')] 1 = None \<and>
   (\<exists>s2. support_body [(0, ''src-1'')] mixed_support [(''src-1'', example_source [])] = Inr s2 \<and>
      claims_of s2 ''src-1'' =
        [\<lparr>text_segment = ''claim text'', confidence = 0.9\<rparr>,
         \<lparr>text_segment = ''claim text'', confidence = 0.5\<rparr>]) \<and>
   (\<exists>u' s' c'. event_body mixed_event ([], [], 1) = Inr (u', s', c') \<and>
      claims_of s' ''src-1'' =
        [\<lparr>text_segment = ''claim text'', confidence = 0.9\<rparr>,
         \<lparr>text_segment = ''claim text'', confidence = 0.5\<rparr>])"
proof -
  have chunks: "event_chunks mixed_event = example_chunks"
    by (simp add: event_chunks_def mixed_event_def)
  have h1: "registry_ok ([], [], 1)" by (simp add: registry_ok_def)
  have h2: "event_supports mixed_event = [] @ mixed_support # []"
    by (simp add: event_supports_def mixed_event_def)
  have h3: "or_empty (grounding_chunk_indices mixed_support) = [0] @ 1 # [0]"
    by (simp add: mixed_support_def)
  have h4: "web (event_chunks mixed_event ! nat 1) = None"
    by (simp add: chunks example_chunks_def)
  have h5: "chunks_loop 0 (event_chunks mixed_event) (([], [], 1), []) =
     Inr (([(''https://a.com'', ''src-1'')], [(''src-1'', example_source [])], 2),
          [(0, ''src-1'')])"
    unfolding chunks by (rule example_chunks_loop)
  have h6: "sources_ok [(''src-1'', example_source [])]"
    by (simp add: sources_ok_def example_source_def)
  note both = absent_index_skipped[where r = "([], [], 1)" and ev = mixed_event
      and earlier = "[]" and support = mixed_support and later = "[]"
      and pre = "[0]" and idx = 1 and post = "[0]", OF h1 h2 h3 disjI2[OF disjI2[OF h4]]]
  from both[THEN conjunct1, rule_format, OF conjI[OF h5 conjI[OF h6 refl]]]
  obtain s2 where absent: "dict_get [(0::int, ''src-1'')] 1 = None"
    and body: "support_body [(0, ''src-1'')] mixed_support [(''src-1'', example_source [])] =
        Inr s2"
    and cl: "claims_of s2 ''src-1'' = claims_of [(''src-1'', example_source [])] ''src-1'' @
        map (\<lambda>(i, chunk_idx).
               make_claim (or_empty (confidence_scores mixed_support)) (segment mixed_support) i)
          (filter (\<lambda>(i, chunk_idx). dict_get [(0::int, ''src-1'')] chunk_idx = Some ''src-1'')
             (enumerate 0 [0] @ enumerate (Suc (length [0::int])) [0]))"
    by blast
  have c2: "claims_of s2 ''src-1'' =
        [\<lparr>text_segment = ''claim text'', confidence = 0.9\<rparr>,
         \<lparr>text_segment = ''claim text'', confidence = 0.5\<rparr>]"
    unfolding cl
    by (simp add: claims_of_def dict_get_def example_source_def make_claim_def mixed_support_def
       )
  from both[THEN conjunct2] obtain u' s' c' where
    run: "event_body mixed_event ([], [], 1) = Inr (u', s', c')"
    and cl': "claims_of s' ''src-1'' = claims_of (fst (snd (([], [], 1) :: registry))) ''src-1'' @
        concat (map (\<lambda>sp. support_claims (chunk_sid u' (event_chunks mixed_event)) sp ''src-1'')
                  []) @
        map (\<lambda>(i, chunk_idx).
               make_claim (or_empty (confidence_scores mixed_support)) (segment mixed_support) i)
          (filter (\<lambda>(i, chunk_idx).
                     chunk_sid u' (event_chunks mixed_event) chunk_idx = Some ''src-1'')
             (enumerate 0 [0] @ enumerate (Suc (length [0::int])) [0])) @
        concat (map (\<lambda>sp. support_claims (chunk_sid u' (event_chunks mixed_event)) sp ''src-1'')
                  [])"
    by blast
  have "\<exists>s c. event_body mixed_event ([], [], 1) = Inr ([(''https://a.com'', ''src-1'')], s, c)"
    by (simp add: event_body_def mixed_event_def example_chunks_def register_web_def
        dict_get_def str_nat_1 Let_def support_body_def append_claim_def mixed_support_def)
  with run have u': "u' = [(''https://a.com'', ''src-1'')]" by auto
  have c': "claims_of s' ''src-1'' =
        [\<lparr>text_segment = ''claim text'', confidence = 0.9\<rparr>,
         \<lparr>text_segment = ''claim text'', confidence = 0.5\<rparr>]"
    unfolding cl' u' chunks
    by (simp add: claims_of_def dict_get_def chunk_sid_def example_chunks_def make_claim_def
        mixed_support_def)
  from h1 h2 h3 h4 h5 h6 absent body c2 run c' show ?thesis by blast
qed

end
